theory Spec2Isabelle
  imports Main
begin

section \<open>Grids as JavaScript arrays of arrays\<close>

text \<open>
  The generator of \<^verbatim>\<open>src/script.js\<close> (class \<^verbatim>\<open>SudokuCSP\<close>) works on an array of
  row arrays of numbers. A cell read \<^verbatim>\<open>board[i][j]\<close> throws a TypeError when the row
  \<^verbatim>\<open>board[i]\<close> does not exist, and is \<^verbatim>\<open>undefined\<close> when the row exists and has no
  index \<^verbatim>\<open>j\<close>. A cell write \<^verbatim>\<open>board[i][j] = v\<close> throws when the row does not exist
  and grows the row, leaving holes, when \<^verbatim>\<open>j\<close> lies beyond its end. A cell of the model
  is therefore \<open>Some n\<close> for the number \<open>n\<close> and \<open>None\<close> for a hole (which reads as
  \<^verbatim>\<open>undefined\<close> and is \<^verbatim>\<open>===\<close> to no number).
\<close>

type_synonym cell = "nat option"
type_synonym grid = "cell list list"

datatype error = TypeError

definition rd :: "grid \<Rightarrow> nat \<Rightarrow> nat \<Rightarrow> error + cell" where
  "rd board i j =
     (if i < length board
      then Inr (if j < length (board ! i) then board ! i ! j else None)
      else Inl TypeError)"

definition putRow :: "cell list \<Rightarrow> nat \<Rightarrow> cell \<Rightarrow> cell list" where
  "putRow row j v =
     (if j < length row then row[j := v]
      else row @ replicate (j - length row) None @ [v])"

definition put :: "grid \<Rightarrow> nat \<Rightarrow> nat \<Rightarrow> cell \<Rightarrow> grid" where
  "put board i j v = (if i < length board then board[i := putRow (board ! i) j v] else board)"

definition wr :: "grid \<Rightarrow> nat \<Rightarrow> nat \<Rightarrow> cell \<Rightarrow> error + grid" where
  "wr board i j v = (if i < length board then Inr (put board i j v) else Inl TypeError)"

text \<open>
  A loop of the shape
  \<^verbatim>\<open>for (...) { if (board[i][j] === num) return false; }\<close>
  over the cells \<open>ps\<close>, in their order: \<open>Inr False\<close> at the first cell that holds
  \<open>num\<close>, the TypeError of the first read that throws, \<open>Inr True\<close> when the loop runs
  to its end.
\<close>

fun scan :: "grid \<Rightarrow> (nat \<times> nat) list \<Rightarrow> nat \<Rightarrow> error + bool" where
  "scan board [] num = Inr True"
| "scan board ((i, j) # ps) num =
     (case rd board i j of
        Inl e \<Rightarrow> Inl e
      | Inr v \<Rightarrow> if v = Some num then Inr False else scan board ps num)"

definition rowCells :: "nat \<Rightarrow> (nat \<times> nat) list" where
  "rowCells row = map (\<lambda>x. (row, x)) [0..<9]"

definition colCells :: "nat \<Rightarrow> (nat \<times> nat) list" where
  "colCells col = map (\<lambda>x. (x, col)) [0..<9]"

definition boxCells :: "nat \<Rightarrow> nat \<Rightarrow> (nat \<times> nat) list" where
  "boxCells startRow startCol =
     concat (map (\<lambda>i. map (\<lambda>j. (i + startRow, j + startCol)) [0..<3]) [0..<3])"

text \<open>\<^verbatim>\<open>isValid(board, row, col, num)\<close>: the row loop, the column loop, the box loop.\<close>

definition isValid :: "grid \<Rightarrow> nat \<Rightarrow> nat \<Rightarrow> nat \<Rightarrow> error + bool" where
  "isValid board row col num =
     (case scan board (rowCells row) num of
        Inl e \<Rightarrow> Inl e
      | Inr False \<Rightarrow> Inr False
      | Inr True \<Rightarrow>
         (case scan board (colCells col) num of
            Inl e \<Rightarrow> Inl e
          | Inr False \<Rightarrow> Inr False
          | Inr True \<Rightarrow>
             (let startRow = row - row mod 3;
                  startCol = col - col mod 3
              in scan board (boxCells startRow startCol) num)))"

text \<open>\<^verbatim>\<open>isSafeInBox(rowStart, colStart, num)\<close>, with \<^verbatim>\<open>this.board\<close> as a parameter.\<close>

definition isSafeInBox :: "grid \<Rightarrow> nat \<Rightarrow> nat \<Rightarrow> nat \<Rightarrow> error + bool" where
  "isSafeInBox board rowStart colStart num =
     scan board (concat (map (\<lambda>i. map (\<lambda>j. (rowStart + i, colStart + j)) [0..<3]) [0..<3])) num"


section \<open>The backtracking solver\<close>

definition allCells :: "(nat \<times> nat) list" where
  "allCells = concat (map (\<lambda>i. map (\<lambda>j. (i, j)) [0..<9]) [0..<9])"

text \<open>
  The two outer loops of \<^verbatim>\<open>solveBoard\<close> look for the first cell, in row-major order,
  with \<^verbatim>\<open>board[i][j] === 0\<close>.
\<close>

fun firstEmpty :: "grid \<Rightarrow> (nat \<times> nat) list \<Rightarrow> error + (nat \<times> nat) option" where
  "firstEmpty board [] = Inr None"
| "firstEmpty board ((i, j) # ps) =
     (case rd board i j of
        Inl e \<Rightarrow> Inl e
      | Inr v \<Rightarrow> if v = Some 0 then Inr (Some (i, j)) else firstEmpty board ps)"

text \<open>
  \<^verbatim>\<open>solveBoard(board)\<close> returns its boolean and leaves the board mutated; the model
  returns both. \<open>tryNums board i j num\<close> is the loop
  \<^verbatim>\<open>for (let num = 1; num <= 9; num++)\<close> at the cell \<open>(i, j)\<close>, entered with the
  counter at \<open>num\<close>; after a failed recursive call it goes on with the board that call
  left behind, with \<open>(i, j)\<close> set back to \<open>0\<close>.
\<close>

function (domintros) solveBoard :: "grid \<Rightarrow> error + bool \<times> grid"
  and tryNums :: "grid \<Rightarrow> nat \<Rightarrow> nat \<Rightarrow> nat \<Rightarrow> error + bool \<times> grid" where
  "solveBoard board =
     (case firstEmpty board allCells of
        Inl e \<Rightarrow> Inl e
      | Inr None \<Rightarrow> Inr (True, board)
      | Inr (Some (i, j)) \<Rightarrow> tryNums board i j 1)"
| "tryNums board i j num =
     (if num \<le> 9 then
        (case isValid board i j num of
           Inl e \<Rightarrow> Inl e
         | Inr ok \<Rightarrow>
            if ok then
              (case wr board i j (Some num) of
                 Inl e \<Rightarrow> Inl e
               | Inr board1 \<Rightarrow>
                  (case solveBoard board1 of
                     Inl e \<Rightarrow> Inl e
                   | Inr (solved, board2) \<Rightarrow>
                      if solved then Inr (True, board2)
                      else
                        (case wr board2 i j (Some 0) of
                           Inl e \<Rightarrow> Inl e
                         | Inr board3 \<Rightarrow> tryNums board3 i j (num + 1))))
            else tryNums board i j (num + 1))
      else Inr (False, board))"
  by pat_completeness auto

text \<open>
  The recursion is nested: the board of the next iteration is the one the recursive call
  returned. Termination therefore needs, of a call that is known to terminate, that a
  failed search gives the board back as it got it. The measure counts the cells that
  hold \<open>0\<close>.
\<close>

definition zerosRow :: "cell list \<Rightarrow> nat" where
  "zerosRow row = length (filter (\<lambda>v. v = Some 0) row)"

definition zeros :: "grid \<Rightarrow> nat" where
  "zeros board = sum_list (map zerosRow board)"

lemma putRow_putRow: "putRow (putRow row j v) j w = putRow row j w"
  by (auto simp: putRow_def list_update_append)

lemma put_put: "put (put board i j v) i j w = put board i j w"
  by (simp add: put_def putRow_putRow)

lemma rd_put_same: "rd board i j = Inr v \<Longrightarrow> v \<noteq> None \<Longrightarrow> put board i j v = board"
  by (auto simp: rd_def put_def putRow_def split: if_splits) (metis list_update_id)

lemma zerosRow_putRow:
  "zerosRow (putRow row j (Some 0)) = Suc (zerosRow (putRow row j (Some (Suc n))))"
proof (cases "j < length row")
  case True
  then have "\<And>v. putRow row j v = take j row @ v # drop (Suc j) row"
    by (simp add: putRow_def upd_conv_take_nth_drop)
  then show ?thesis by (simp add: zerosRow_def)
next
  case False
  then show ?thesis by (simp add: putRow_def zerosRow_def)
qed

lemma zeros_put:
  assumes "i < length board"
  shows "zeros (put board i j (Some 0)) = Suc (zeros (put board i j (Some (Suc n))))"
proof -
  have "\<And>v. put board i j v = take i board @ putRow (board ! i) j v # drop (Suc i) board"
    using assms by (simp add: put_def upd_conv_take_nth_drop)
  then show ?thesis by (simp add: zeros_def zerosRow_putRow)
qed

lemma firstEmpty_Some:
  "firstEmpty board ps = Inr (Some (i, j)) \<Longrightarrow> rd board i j = Inr (Some 0) \<and> (i, j) \<in> set ps"
  by (induction board ps rule: firstEmpty.induct) (auto split: sum.splits if_splits)

lemma wr_Inr: "wr board i j v = Inr board' \<longleftrightarrow> i < length board \<and> board' = put board i j v"
  by (auto simp: wr_def)

lemma restore_partial:
  "solveBoard_tryNums_dom (Inl board) \<Longrightarrow>
     solveBoard board = Inr (False, board') \<Longrightarrow> board' = board"
  "solveBoard_tryNums_dom (Inr (board, i, j, num)) \<Longrightarrow>
     rd board i j = Inr (Some 0) \<Longrightarrow> tryNums board i j num = Inr (False, board') \<Longrightarrow>
     board' = board"
proof (induction board and board i j num arbitrary: board' and board'
    rule: solveBoard_tryNums.pinduct)
  case (1 board)
  from "1.prems" "1.hyps" obtain i j where fe: "firstEmpty board allCells = Inr (Some (i, j))"
    and t: "tryNums board i j 1 = Inr (False, board')"
    by (auto simp: solveBoard.psimps split: sum.splits option.splits)
  from fe have "rd board i j = Inr (Some 0)" by (simp add: firstEmpty_Some)
  with "1.IH"[OF fe refl refl] t show ?case by simp
next
  case (2 board i j num)
  note dom = "2.hyps"
  note r = \<open>rd board i j = Inr (Some 0)\<close>
  note res = \<open>tryNums board i j num = Inr (False, board')\<close>
  show ?case
  proof (cases "num \<le> 9")
    case False
    with res dom show ?thesis by (simp add: tryNums.psimps)
  next
    case le: True
    from res dom le obtain ok where v: "isValid board i j num = Inr ok"
      by (auto simp: tryNums.psimps split: sum.splits)
    show ?thesis
    proof (cases ok)
      case False
      with res dom le v have "tryNums board i j (num + 1) = Inr (False, board')"
        by (simp add: tryNums.psimps)
      with "2.IH"(3)[OF le v] False r show ?thesis by simp
    next
      case True
      from res dom le v True obtain board1 board2 board3 where
        w1: "wr board i j (Some num) = Inr board1"
        and s: "solveBoard board1 = Inr (False, board2)"
        and w2: "wr board2 i j (Some 0) = Inr board3"
        and t: "tryNums board3 i j (num + 1) = Inr (False, board')"
        by (auto simp: tryNums.psimps split: sum.splits if_splits prod.splits)
      from "2.IH"(1)[OF le v True w1 s] have b2: "board2 = board1" .
      from w1 w2 b2 have "board3 = put board i j (Some 0)"
        by (simp add: wr_Inr put_put)
      with r have b3: "board3 = board" by (simp add: rd_put_same)
      from "2.IH"(2)[OF le v True w1 s refl _ w2, of board'] t b3 r
      show ?thesis by simp
    qed
  qed
qed

lemma put_firstEmpty:
  "firstEmpty board ps = Inr (Some (x, y)) \<Longrightarrow> put board x y (Some 0) = board"
  using firstEmpty_Some[of board ps x y] by (simp add: rd_put_same)

lemma zeros_place:
  assumes "wr board i j (Some num) = Inr board1" and "num \<le> 9"
  shows "20 * zeros board1 + 10
           < 20 * zeros (put board i j (Some 0)) + (if num = 0 then 11 else 10 - num)"
proof (cases num)
  case 0
  with assms show ?thesis by (simp add: wr_Inr)
next
  case (Suc n)
  from assms have i: "i < length board" and b: "board1 = put board i j (Some num)"
    by (simp_all add: wr_Inr)
  from zeros_put[OF i, of j n] b Suc assms(2) show ?thesis by simp
qed

lemma put_undo:
  assumes "wr board i j (Some num) = Inr board1" and "wr board1 i j (Some 0) = Inr board3"
  shows "put board3 i j (Some 0) = put board i j (Some 0)"
  using assms by (simp add: wr_Inr put_put)

termination solveBoard
proof (relation "measure (\<lambda>x. case x of
          Inl board \<Rightarrow> 20 * zeros board + 10
        | Inr (board, i, j, num) \<Rightarrow>
            20 * zeros (put board i j (Some 0)) + (if num = 0 then 11 else 10 - num))",
    goal_cases)
  case 1
  show ?case by simp
next
  case (2 board b x2 x y)
  then have "put board x y (Some 0) = board" by (simp add: put_firstEmpty)
  then show ?case by simp
next
  case (3 board i j num b board1)
  then show ?case using zeros_place[of board i j num board1] by simp
next
  case (4 board i j num b board1 bb x board2 board3)
  then have "board2 = board1" using restore_partial(1)[of board1 board2] by simp
  with 4 have "put board3 i j (Some 0) = put board i j (Some 0)"
    using put_undo[of board i j num board1 board3] by simp
  with \<open>num \<le> 9\<close> show ?case by auto
next
  case (5 board i j num b)
  then show ?case by auto
qed

lemma solve_total:
  "solveBoard_tryNums_dom (Inl board)"
  "solveBoard_tryNums_dom (Inr (board, i, j, num))"
  by (induction board and board i j num rule: solveBoard_tryNums.induct)
     (auto intro: solveBoard_tryNums.domintros)


section \<open>Random seeding, cell removal and the entry point\<close>

text \<open>
  \<^verbatim>\<open>Math.random()\<close> is the one input of the generator besides the difficulty. The
  model takes the sequence of its results as a list of numbers \<open>draws\<close>:
  \<^verbatim>\<open>Math.floor(Math.random() * k)\<close> consumes the head \<open>r\<close> of the list and is
  \<open>r mod k\<close>, so that every value in \<open>0..k-1\<close>, and no other, can be drawn. A loop that
  needs a draw when the list is empty has not finished within the draws given: the
  result is \<open>None\<close>. \<open>Some (Inl e)\<close> is a thrown exception, \<open>Some (Inr x)\<close> a normal
  return.
\<close>

text \<open>
  The loop \<^verbatim>\<open>do { num = Math.floor(Math.random() * 9) + 1; } while (!this.isSafeInBox(row, col, num))\<close>
  of \<^verbatim>\<open>fillBox\<close>.
\<close>

fun drawSafe :: "grid \<Rightarrow> nat \<Rightarrow> nat \<Rightarrow> nat list \<Rightarrow> (error + nat \<times> nat list) option" where
  "drawSafe board row col [] = None"
| "drawSafe board row col (r # draws) =
     (let num = r mod 9 + 1 in
      case isSafeInBox board row col num of
        Inl e \<Rightarrow> Some (Inl e)
      | Inr safe \<Rightarrow> if \<not> safe then drawSafe board row col draws else Some (Inr (num, draws)))"

text \<open>
  The two \<^verbatim>\<open>for\<close> loops of \<^verbatim>\<open>fillBox(row, col)\<close> visit the offsets \<open>(i, j)\<close> of
  \<open>boxOffsets\<close> in this order; \<open>fillCells\<close> runs the loop body on the offsets left.
\<close>

definition boxOffsets :: "(nat \<times> nat) list" where
  "boxOffsets = concat (map (\<lambda>i. map (\<lambda>j. (i, j)) [0..<3]) [0..<3])"

fun fillCells ::
  "grid \<Rightarrow> nat \<Rightarrow> nat \<Rightarrow> (nat \<times> nat) list \<Rightarrow> nat list \<Rightarrow> (error + grid \<times> nat list) option" where
  "fillCells board row col [] draws = Some (Inr (board, draws))"
| "fillCells board row col ((i, j) # offs) draws =
     (case drawSafe board row col draws of
        None \<Rightarrow> None
      | Some (Inl e) \<Rightarrow> Some (Inl e)
      | Some (Inr (num, draws1)) \<Rightarrow>
         (case wr board (row + i) (col + j) (Some num) of
            Inl e \<Rightarrow> Some (Inl e)
          | Inr board1 \<Rightarrow> fillCells board1 row col offs draws1))"

definition fillBox :: "grid \<Rightarrow> nat \<Rightarrow> nat \<Rightarrow> nat list \<Rightarrow> (error + grid \<times> nat list) option" where
  "fillBox board row col draws = fillCells board row col boxOffsets draws"

text \<open>\<^verbatim>\<open>fillDiagonal\<close>: \<^verbatim>\<open>for (let i = 0; i < 9; i = i + 3) this.fillBox(i, i)\<close>.\<close>

function fillDiagonalFrom :: "nat \<Rightarrow> grid \<Rightarrow> nat list \<Rightarrow> (error + grid \<times> nat list) option" where
  "fillDiagonalFrom i board draws =
     (if i < 9 then
        (case fillBox board i i draws of
           None \<Rightarrow> None
         | Some (Inl e) \<Rightarrow> Some (Inl e)
         | Some (Inr (board1, draws1)) \<Rightarrow> fillDiagonalFrom (i + 3) board1 draws1)
      else Some (Inr (board, draws)))"
  by pat_completeness auto
termination
  by (relation "measure (\<lambda>(i, board, draws). 9 - i)") auto

definition fillDiagonal :: "grid \<Rightarrow> nat list \<Rightarrow> (error + grid \<times> nat list) option" where
  "fillDiagonal board draws = fillDiagonalFrom 0 board draws"

text \<open>
  \<^verbatim>\<open>removeDigits(count)\<close>. In JavaScript \<^verbatim>\<open>undefined !== 0\<close> holds, so a hole counts as
  a cell to clear.
\<close>

fun removeDigits :: "grid \<Rightarrow> nat \<Rightarrow> nat list \<Rightarrow> (error + grid \<times> nat list) option" where
  "removeDigits board count [] = (if count > 0 then None else Some (Inr (board, [])))"
| "removeDigits board count (r # draws) =
     (if count > 0 then
        (let cellId = r mod 81;
             i = cellId div 9;
             j = cellId mod 9
         in case rd board i j of
              Inl e \<Rightarrow> Some (Inl e)
            | Inr v \<Rightarrow>
               if v \<noteq> Some 0 then
                 (case wr board i j (Some 0) of
                    Inl e \<Rightarrow> Some (Inl e)
                  | Inr board1 \<Rightarrow> removeDigits board1 (count - 1) draws)
               else removeDigits board count draws)
      else Some (Inr (board, r # draws)))"

text \<open>
  The argument of \<^verbatim>\<open>generateNewGame(difficulty = 'Medium')\<close> is any JavaScript value;
  an omitted argument is \<^verbatim>\<open>undefined\<close> and takes the default. Numbers are kept as
  integers here: only their being no string matters.
\<close>

datatype jsval = JUndefined | JNull | JBool bool | JNum int | JStr string

definition attemptsFor :: "jsval \<Rightarrow> nat" where
  "attemptsFor arg =
     (let difficulty = (if arg = JUndefined then JStr ''Medium'' else arg);
          attempts = 40;
          attempts = (if difficulty = JStr ''Easy'' then 30 else attempts);
          attempts = (if difficulty = JStr ''Hard'' then 50 else attempts)
      in attempts)"

record game =
  initial :: grid
  solution :: grid

definition emptyBoard :: grid where
  "emptyBoard = replicate 9 (replicate 9 (Some 0))"

text \<open>
  \<^verbatim>\<open>generateNewGame\<close> on grids as values: the result of \<^verbatim>\<open>solveBoard\<close> is dropped, as in
  the source, and the copy \<^verbatim>\<open>this.board.map(row => [...row])\<close> is the board itself.
  Who shares which array with whom is the subject of the heap model further down.
\<close>

definition generateNewGame :: "jsval \<Rightarrow> nat list \<Rightarrow> (error + game) option" where
  "generateNewGame difficulty draws =
     (case fillDiagonal emptyBoard draws of
        None \<Rightarrow> None
      | Some (Inl e) \<Rightarrow> Some (Inl e)
      | Some (Inr (board1, draws1)) \<Rightarrow>
         (case solveBoard board1 of
            Inl e \<Rightarrow> Some (Inl e)
          | Inr (solved, board2) \<Rightarrow>
             (let solution = map (\<lambda>row. row) board2 in
              case removeDigits board2 (attemptsFor difficulty) draws1 of
                None \<Rightarrow> None
              | Some (Inl e) \<Rightarrow> Some (Inl e)
              | Some (Inr (board3, draws2)) \<Rightarrow>
                 Some (Inr \<lparr>initial = board3, solution = solution\<rparr>))))"


section \<open>The solver with a bound on its recursion depth\<close>

text \<open>
  \<^verbatim>\<open>solveBoard\<close> once more, line by line, with a bound on the nesting of its recursive
  calls: \<open>depth\<close> is the number of calls of \<^verbatim>\<open>solveBoard\<close> that may be open below the
  current one. A call that would go deeper is not made and the result is \<open>None\<close>.
  With enough depth the result is that of \<open>solveBoard\<close>.
\<close>

function solveBoardD :: "nat \<Rightarrow> grid \<Rightarrow> (error + bool \<times> grid) option"
  and tryNumsD :: "nat \<Rightarrow> grid \<Rightarrow> nat \<Rightarrow> nat \<Rightarrow> nat \<Rightarrow> (error + bool \<times> grid) option" where
  "solveBoardD depth board =
     (case firstEmpty board allCells of
        Inl e \<Rightarrow> Some (Inl e)
      | Inr None \<Rightarrow> Some (Inr (True, board))
      | Inr (Some (i, j)) \<Rightarrow> tryNumsD depth board i j 1)"
| "tryNumsD depth board i j num =
     (if num \<le> 9 then
        (case isValid board i j num of
           Inl e \<Rightarrow> Some (Inl e)
         | Inr ok \<Rightarrow>
            if ok then
              (case wr board i j (Some num) of
                 Inl e \<Rightarrow> Some (Inl e)
               | Inr board1 \<Rightarrow>
                  (case depth of
                     0 \<Rightarrow> None
                   | Suc below \<Rightarrow>
                      (case solveBoardD below board1 of
                         None \<Rightarrow> None
                       | Some (Inl e) \<Rightarrow> Some (Inl e)
                       | Some (Inr (solved, board2)) \<Rightarrow>
                          if solved then Some (Inr (True, board2))
                          else
                            (case wr board2 i j (Some 0) of
                               Inl e \<Rightarrow> Some (Inl e)
                             | Inr board3 \<Rightarrow> tryNumsD depth board3 i j (num + 1)))))
            else tryNumsD depth board i j (num + 1))
      else Some (Inr (False, board)))"
  by pat_completeness auto
termination
  by (relation "inv_image (less_than <*lex*> less_than)
        (\<lambda>x. case x of
           Inl (depth, board) \<Rightarrow> (depth, 11)
         | Inr (depth, board, i, j, num) \<Rightarrow> (depth, 10 - num))") auto


section \<open>The boards generation passes through\<close>

text \<open>
  The working grid is mutated in place, so the boards it passes through are not part of
  any result. They are named here, one rule for each assignment of the source.
  \<open>fillVisits board row col offs draws s\<close>: \<open>s\<close> is the board after one of the
  assignments \<^verbatim>\<open>this.board[row + i][col + j] = num\<close> that \<^verbatim>\<open>fillBox\<close> makes on the
  offsets \<open>offs\<close>, started on \<open>board\<close> with the draws \<open>draws\<close>.
\<close>

inductive fillVisits ::
  "grid \<Rightarrow> nat \<Rightarrow> nat \<Rightarrow> (nat \<times> nat) list \<Rightarrow> nat list \<Rightarrow> grid \<Rightarrow> bool" where
  fv_assign:
    "drawSafe board row col draws = Some (Inr (num, draws1)) \<Longrightarrow>
     wr board (row + i) (col + j) (Some num) = Inr board1 \<Longrightarrow>
     fillVisits board row col ((i, j) # offs) draws board1"
| fv_rest:
    "drawSafe board row col draws = Some (Inr (num, draws1)) \<Longrightarrow>
     wr board (row + i) (col + j) (Some num) = Inr board1 \<Longrightarrow>
     fillVisits board1 row col offs draws1 s \<Longrightarrow>
     fillVisits board row col ((i, j) # offs) draws s"

text \<open>The same for the loop of \<^verbatim>\<open>fillDiagonal\<close>, entered with the counter at \<open>i\<close>.\<close>

inductive diagVisits :: "nat \<Rightarrow> grid \<Rightarrow> nat list \<Rightarrow> grid \<Rightarrow> bool" where
  dv_box:
    "i < 9 \<Longrightarrow> fillVisits board i i boxOffsets draws s \<Longrightarrow> diagVisits i board draws s"
| dv_next:
    "i < 9 \<Longrightarrow> fillBox board i i draws = Some (Inr (board1, draws1)) \<Longrightarrow>
     diagVisits (i + 3) board1 draws1 s \<Longrightarrow> diagVisits i board draws s"

text \<open>
  \<open>solveVisits board s\<close>: \<open>s\<close> is the board after a placement \<^verbatim>\<open>board[i][j] = num\<close> or an
  undo \<^verbatim>\<open>board[i][j] = 0\<close> made during \<^verbatim>\<open>solveBoard(board)\<close>, in the call itself or in
  one of the calls below it; \<open>tryVisits\<close> is the same for the digit loop.
\<close>

inductive solveVisits :: "grid \<Rightarrow> grid \<Rightarrow> bool"
  and tryVisits :: "grid \<Rightarrow> nat \<Rightarrow> nat \<Rightarrow> nat \<Rightarrow> grid \<Rightarrow> bool" where
  sv_loop:
    "firstEmpty board allCells = Inr (Some (i, j)) \<Longrightarrow> tryVisits board i j 1 s \<Longrightarrow>
     solveVisits board s"
| tv_skip:
    "num \<le> 9 \<Longrightarrow> isValid board i j num = Inr False \<Longrightarrow> tryVisits board i j (num + 1) s \<Longrightarrow>
     tryVisits board i j num s"
| tv_place:
    "num \<le> 9 \<Longrightarrow> isValid board i j num = Inr True \<Longrightarrow>
     wr board i j (Some num) = Inr board1 \<Longrightarrow>
     tryVisits board i j num board1"
| tv_call:
    "num \<le> 9 \<Longrightarrow> isValid board i j num = Inr True \<Longrightarrow>
     wr board i j (Some num) = Inr board1 \<Longrightarrow> solveVisits board1 s \<Longrightarrow>
     tryVisits board i j num s"
| tv_undo:
    "num \<le> 9 \<Longrightarrow> isValid board i j num = Inr True \<Longrightarrow>
     wr board i j (Some num) = Inr board1 \<Longrightarrow> solveBoard board1 = Inr (False, board2) \<Longrightarrow>
     wr board2 i j (Some 0) = Inr board3 \<Longrightarrow>
     tryVisits board i j num board3"
| tv_next:
    "num \<le> 9 \<Longrightarrow> isValid board i j num = Inr True \<Longrightarrow>
     wr board i j (Some num) = Inr board1 \<Longrightarrow> solveBoard board1 = Inr (False, board2) \<Longrightarrow>
     wr board2 i j (Some 0) = Inr board3 \<Longrightarrow> tryVisits board3 i j (num + 1) s \<Longrightarrow>
     tryVisits board i j num s"

text \<open>
  The assignments themselves. \<open>solveWrites board b r c w\<close>: during \<^verbatim>\<open>solveBoard(board)\<close>,
  in the call itself or in one of the calls below it, the assignment
  \<^verbatim>\<open>board[r][c] = w\<close> is executed at a moment when the board is \<open>b\<close>; \<open>w\<close> is the digit
  of a placement (line 74) or the \<open>0\<close> of an undo (line 76). \<open>tryWrites\<close> is the same for
  the digit loop.
\<close>

inductive solveWrites :: "grid \<Rightarrow> grid \<Rightarrow> nat \<Rightarrow> nat \<Rightarrow> cell \<Rightarrow> bool"
  and tryWrites :: "grid \<Rightarrow> nat \<Rightarrow> nat \<Rightarrow> nat \<Rightarrow> grid \<Rightarrow> nat \<Rightarrow> nat \<Rightarrow> cell \<Rightarrow> bool" where
  sw_loop:
    "firstEmpty board allCells = Inr (Some (i, j)) \<Longrightarrow> tryWrites board i j 1 b r c w \<Longrightarrow>
     solveWrites board b r c w"
| tw_skip:
    "num \<le> 9 \<Longrightarrow> isValid board i j num = Inr False \<Longrightarrow>
     tryWrites board i j (num + 1) b r c w \<Longrightarrow>
     tryWrites board i j num b r c w"
| tw_place:
    "num \<le> 9 \<Longrightarrow> isValid board i j num = Inr True \<Longrightarrow>
     wr board i j (Some num) = Inr board1 \<Longrightarrow>
     tryWrites board i j num board i j (Some num)"
| tw_call:
    "num \<le> 9 \<Longrightarrow> isValid board i j num = Inr True \<Longrightarrow>
     wr board i j (Some num) = Inr board1 \<Longrightarrow> solveWrites board1 b r c w \<Longrightarrow>
     tryWrites board i j num b r c w"
| tw_undo:
    "num \<le> 9 \<Longrightarrow> isValid board i j num = Inr True \<Longrightarrow>
     wr board i j (Some num) = Inr board1 \<Longrightarrow> solveBoard board1 = Inr (False, board2) \<Longrightarrow>
     wr board2 i j (Some 0) = Inr board3 \<Longrightarrow>
     tryWrites board i j num board2 i j (Some 0)"
| tw_next:
    "num \<le> 9 \<Longrightarrow> isValid board i j num = Inr True \<Longrightarrow>
     wr board i j (Some num) = Inr board1 \<Longrightarrow> solveBoard board1 = Inr (False, board2) \<Longrightarrow>
     wr board2 i j (Some 0) = Inr board3 \<Longrightarrow> tryWrites board3 i j (num + 1) b r c w \<Longrightarrow>
     tryWrites board i j num b r c w"

text \<open>
  The boards of \<^verbatim>\<open>generateNewGame\<close> up to the end of the search: the board after the
  reset, the boards of the seeding, the boards of the search.
\<close>

inductive generationVisits :: "nat list \<Rightarrow> grid \<Rightarrow> bool" where
  gv_reset: "generationVisits draws emptyBoard"
| gv_seed: "diagVisits 0 emptyBoard draws s \<Longrightarrow> generationVisits draws s"
| gv_solve:
    "fillDiagonal emptyBoard draws = Some (Inr (board1, draws1)) \<Longrightarrow> solveVisits board1 s \<Longrightarrow>
     generationVisits draws s"


section \<open>The arrays behind the grids\<close>

text \<open>
  A JavaScript grid is an array object holding references to row array objects, and two
  grids may share rows or be the same object. The heap is the list of the array objects
  allocated so far; an address is an index into it, and a new object goes to its end.
  \<open>Cells\<close> is an array of numbers, \<open>Rows\<close> an array of references to arrays.
\<close>

type_synonym addr = nat

datatype obj = Cells "cell list" | Rows "addr list"

type_synonym heap = "obj list"

text \<open>
  The fields \<^verbatim>\<open>board\<close> and \<^verbatim>\<open>solution\<close> of a \<^verbatim>\<open>SudokuCSP\<close> object (\<^verbatim>\<open>solution\<close> is
  \<^verbatim>\<open>null\<close> until the first game), and the object \<^verbatim>\<open>{initial, solution}\<close> that
  \<^verbatim>\<open>generateNewGame\<close> returns: references, not grids.
\<close>

record csp =
  boardRef :: addr
  solutionRef :: "addr option"

record gameRefs =
  initialAt :: addr
  solutionAt :: addr

definition rowsAt :: "heap \<Rightarrow> addr \<Rightarrow> addr list option" where
  "rowsAt h a =
     (if a < length h then (case h ! a of Rows rs \<Rightarrow> Some rs | Cells cs \<Rightarrow> None) else None)"

definition cellsAt :: "heap \<Rightarrow> addr \<Rightarrow> cell list option" where
  "cellsAt h a =
     (if a < length h then (case h ! a of Cells cs \<Rightarrow> Some cs | Rows rs \<Rightarrow> None) else None)"

text \<open>The grid that the array at \<open>a\<close> and its rows hold, when they are arrays of the right kind.\<close>

definition load :: "heap \<Rightarrow> addr \<Rightarrow> grid option" where
  "load h a =
     (case rowsAt h a of
        None \<Rightarrow> None
      | Some rs \<Rightarrow>
         if list_all (\<lambda>r. cellsAt h r \<noteq> None) rs
         then Some (map (\<lambda>r. the (cellsAt h r)) rs) else None)"

text \<open>\<open>store h rs g\<close> replaces the contents of the row arrays \<open>rs\<close> by the rows of \<open>g\<close>.\<close>

fun store :: "heap \<Rightarrow> addr list \<Rightarrow> grid \<Rightarrow> heap" where
  "store h (r # rs) (row # g) = store (h[r := Cells row]) rs g"
| "store h rs g = h"

text \<open>The statement \<^verbatim>\<open>g[i][j] = v\<close> for the grid \<^verbatim>\<open>g\<close> at the address \<open>a\<close>.\<close>

definition setCell :: "heap \<Rightarrow> addr \<Rightarrow> nat \<Rightarrow> nat \<Rightarrow> cell \<Rightarrow> error + heap" where
  "setCell h a i j v =
     (case rowsAt h a of
        None \<Rightarrow> Inl TypeError
      | Some rs \<Rightarrow>
         if i < length rs then
           (case cellsAt h (rs ! i) of
              None \<Rightarrow> Inl TypeError
            | Some cs \<Rightarrow> Inr (h[rs ! i := Cells (putRow cs j v)]))
         else Inl TypeError)"

text \<open>
  \<^verbatim>\<open>Array.from({ length: 9 }, () => Array(9).fill(0))\<close> allocates the outer array and
  nine rows; \<^verbatim>\<open>this.board.map(row => [...row])\<close> allocates a new outer array and a new
  array for every row, with the contents of that row.
\<close>

definition newBoard :: "heap \<Rightarrow> addr \<times> heap" where
  "newBoard h =
     (let n = length h
      in (n, h @ [Rows (map (\<lambda>k. n + 1 + k) [0..<9])] @
               replicate 9 (Cells (replicate 9 (Some 0)))))"

definition copyBoard :: "heap \<Rightarrow> addr \<Rightarrow> error + addr \<times> heap" where
  "copyBoard h a =
     (case load h a of
        None \<Rightarrow> Inl TypeError
      | Some g \<Rightarrow>
         (let n = length h
          in Inr (n, h @ [Rows (map (\<lambda>k. n + 1 + k) [0..<length g])] @ map Cells g)))"

text \<open>
  \<^verbatim>\<open>fillDiagonal\<close>, \<^verbatim>\<open>solveBoard\<close> and \<^verbatim>\<open>removeDigits\<close> reach the heap through cell reads
  and cell writes on the rows of the board only, and keep the rows where they are.
  \<open>onBoard h b f\<close> runs such a method, given as the function \<open>f\<close> on the contents, on the
  board at \<open>b\<close> and writes the new contents into the same row arrays. It stands for the
  method on a board whose rows are nine different arrays, as those of \<open>newBoard\<close> are.
\<close>

definition onBoard ::
  "heap \<Rightarrow> addr \<Rightarrow> (grid \<Rightarrow> (error + grid \<times> 'a) option) \<Rightarrow> (error + heap \<times> 'a) option" where
  "onBoard h b f =
     (case rowsAt h b of
        None \<Rightarrow> Some (Inl TypeError)
      | Some rs \<Rightarrow>
         (case load h b of
            None \<Rightarrow> Some (Inl TypeError)
          | Some g \<Rightarrow>
             (case f g of
                None \<Rightarrow> None
              | Some (Inl e) \<Rightarrow> Some (Inl e)
              | Some (Inr (g', x)) \<Rightarrow> Some (Inr (store h rs g', x)))))"

text \<open>The constructor and \<^verbatim>\<open>generateNewGame\<close> on the heap.\<close>

definition construct :: "heap \<Rightarrow> heap \<times> csp" where
  "construct h = (let (b, h1) = newBoard h in (h1, \<lparr>boardRef = b, solutionRef = None\<rparr>))"

definition generateNewGameH ::
  "jsval \<Rightarrow> nat list \<Rightarrow> heap \<times> csp \<Rightarrow> (error + heap \<times> csp \<times> gameRefs) option" where
  "generateNewGameH difficulty draws st =
     (let (h, this) = st;
          (b, h1) = newBoard h;
          this1 = this\<lparr>boardRef := b\<rparr>
      in case onBoard h1 (boardRef this1) (\<lambda>board. fillDiagonal board draws) of
           None \<Rightarrow> None
         | Some (Inl e) \<Rightarrow> Some (Inl e)
         | Some (Inr (h2, draws1)) \<Rightarrow>
            (case onBoard h2 (boardRef this1)
                    (\<lambda>board. case solveBoard board of
                                Inl e \<Rightarrow> Some (Inl e)
                              | Inr (solved, board') \<Rightarrow> Some (Inr (board', solved))) of
               None \<Rightarrow> None
             | Some (Inl e) \<Rightarrow> Some (Inl e)
             | Some (Inr (h3, solved)) \<Rightarrow>
                (case copyBoard h3 (boardRef this1) of
                   Inl e \<Rightarrow> Some (Inl e)
                 | Inr (s, h4) \<Rightarrow>
                    (let this2 = this1\<lparr>solutionRef := Some s\<rparr>
                     in case onBoard h4 (boardRef this2)
                               (\<lambda>board. removeDigits board (attemptsFor difficulty) draws1) of
                          None \<Rightarrow> None
                        | Some (Inl e) \<Rightarrow> Some (Inl e)
                        | Some (Inr (h5, draws2)) \<Rightarrow>
                           Some (Inr (h5, this2,
                             \<lparr>initialAt = boardRef this2, solutionAt = s\<rparr>))))))"


section \<open>Grids, units and the Sudoku constraint\<close>

text \<open>
  The Grid of the specification: nine rows of nine cells, each an integer from \<open>0\<close> to
  \<open>9\<close>, \<open>0\<close> for an empty cell.
\<close>

definition isDigit :: "cell \<Rightarrow> bool" where
  "isDigit c = (case c of None \<Rightarrow> False | Some v \<Rightarrow> v \<le> 9)"

definition isGrid :: "grid \<Rightarrow> bool" where
  "isGrid board =
     (length board = 9 \<and> list_all (\<lambda>row. length row = 9 \<and> list_all isDigit row) board)"

text \<open>
  The 27 units: the nine rows, the nine columns, and the nine boxes by their top left
  cells. \<open>occurrences board u d\<close> counts the cells of the unit \<open>u\<close> that hold \<open>d\<close>.
\<close>

definition units :: "(nat \<times> nat) list list" where
  "units = map rowCells [0..<9] @ map colCells [0..<9] @
           concat (map (\<lambda>r. map (\<lambda>c. boxCells r c) [0, 3, 6]) [0, 3, 6])"

definition occurrences :: "grid \<Rightarrow> (nat \<times> nat) list \<Rightarrow> nat \<Rightarrow> nat" where
  "occurrences board ps d = length (filter (\<lambda>(i, j). rd board i j = Inr (Some d)) ps)"

text \<open>
  The Sudoku constraint on the cells that are not empty: no digit from \<open>1\<close> to \<open>9\<close>
  occurs twice in a unit. A Solution: a grid without empty cell in which every unit
  holds every digit exactly once.
\<close>

definition consistent :: "grid \<Rightarrow> bool" where
  "consistent board =
     list_all (\<lambda>u. list_all (\<lambda>d. occurrences board u d \<le> 1) [1..<10]) units"

definition isSolution :: "grid \<Rightarrow> bool" where
  "isSolution board =
     (isGrid board \<and>
      list_all (\<lambda>(i, j). rd board i j \<noteq> Inr (Some 0)) allCells \<and>
      list_all (\<lambda>u. list_all (\<lambda>d. occurrences board u d = 1) [1..<10]) units)"

text \<open>
  The constraint once more, cell against cell, as the proofs use it: two different
  cells of one row, one column or one box do not hold the same digit from \<open>1\<close> on.
\<close>

definition sameUnit :: "nat \<times> nat \<Rightarrow> nat \<times> nat \<Rightarrow> bool" where
  "sameUnit p q =
     (fst p = fst q \<or> snd p = snd q \<or>
      (fst p div 3 = fst q div 3 \<and> snd p div 3 = snd q div 3))"

definition conflictFree :: "grid \<Rightarrow> bool" where
  "conflictFree board =
     (\<forall>i<9. \<forall>j<9. \<forall>i'<9. \<forall>j'<9. \<forall>d.
        1 \<le> d \<longrightarrow> (i, j) \<noteq> (i', j') \<longrightarrow> sameUnit (i, j) (i', j') \<longrightarrow>
        rd board i j = Inr (Some d) \<longrightarrow> rd board i' j' \<noteq> Inr (Some d))"

text \<open>
  The 27 cells that \<^verbatim>\<open>isValid(board, row, col, num)\<close> reads: the row, the column and
  the box of \<open>(row, col)\<close>, the cell \<open>(row, col)\<close> among them.
\<close>

definition scanned :: "nat \<Rightarrow> nat \<Rightarrow> (nat \<times> nat) list" where
  "scanned row col = rowCells row @ colCells col @ boxCells (row - row mod 3) (col - col mod 3)"

text \<open>
  What the search keeps true of its board, and what it means for \<^verbatim>\<open>solveBoard\<close> to find
  no empty cell.
\<close>

definition okGrid :: "grid \<Rightarrow> bool" where
  "okGrid board = (isGrid board \<and> conflictFree board)"

definition full :: "grid \<Rightarrow> bool" where
  "full board = (firstEmpty board allCells = Inr None)"

text \<open>
  The specification's reading of \<^verbatim>\<open>isValid\<close>: placing \<open>num\<close> at \<open>(row, col)\<close>
  introduces no duplicate when no other cell of the row, of the column and of the box of
  \<open>(row, col)\<close> holds \<open>num\<close>; the cell \<open>(row, col)\<close> itself is left out.
\<close>

definition noDuplicate :: "grid \<Rightarrow> nat \<Rightarrow> nat \<Rightarrow> nat \<Rightarrow> bool" where
  "noDuplicate board row col num =
     list_all (\<lambda>(i, j). (i, j) = (row, col) \<or> rd board i j \<noteq> Inr (Some num))
       (scanned row col)"

text \<open>
  \<open>frame board board'\<close>: every cell that does not hold \<open>0\<close> in \<open>board\<close> reads the
  same in \<open>board'\<close>.
\<close>

definition frame :: "grid \<Rightarrow> grid \<Rightarrow> bool" where
  "frame board board' =
     (\<forall>r c v. rd board r c = Inr v \<longrightarrow> v \<noteq> Some 0 \<longrightarrow> rd board' r c = Inr v)"

text \<open>
  What \<^verbatim>\<open>fillDiagonal\<close> relies on: the cells outside the three diagonal boxes hold
  \<open>0\<close>, so a digit put into a diagonal box can only clash inside its box.
\<close>

definition offDiagEmpty :: "grid \<Rightarrow> bool" where
  "offDiagEmpty board =
     (\<forall>i<9. \<forall>j<9. i div 3 \<noteq> j div 3 \<longrightarrow> rd board i j = Inr (Some 0))"

definition seeding :: "grid \<Rightarrow> bool" where
  "seeding board = (isGrid board \<and> conflictFree board \<and> offDiagEmpty board)"

text \<open>\<open>cleared board board'\<close>: \<open>board'\<close> is \<open>board\<close> with some cells set to \<open>0\<close>.\<close>

definition cleared :: "grid \<Rightarrow> grid \<Rightarrow> bool" where
  "cleared board board' =
     (\<forall>i j. rd board' i j = rd board i j \<or> rd board' i j = Inr (Some 0))"

text \<open>
  \<open>layout h b rs g\<close>: the array at \<open>b\<close> holds the rows \<open>rs\<close>, which are different arrays,
  and these hold the rows of the grid \<open>g\<close>.
\<close>

definition layout :: "heap \<Rightarrow> addr \<Rightarrow> addr list \<Rightarrow> grid \<Rightarrow> bool" where
  "layout h b rs g =
     (rowsAt h b = Some rs \<and> distinct rs \<and> b \<notin> set rs \<and> (\<forall>r\<in>set rs. r < length h) \<and>
      length g = length rs \<and> (\<forall>k<length rs. cellsAt h (rs ! k) = Some (g ! k)))"


section \<open>Concrete boards\<close>

text \<open>The empty board with a \<open>5\<close> in its top left corner.\<close>

definition grid5 :: grid where
  "grid5 = put emptyBoard 0 0 (Some 5)"

text \<open>
  A board without completion: the cell \<open>(0, 1)\<close> can take neither \<open>1\<close> nor \<open>2\<close>
  (both stand in its column) nor \<open>3\<close> to \<open>9\<close> (all stand in its row). The search
  places \<open>1\<close> and then \<open>2\<close> at \<open>(0, 0)\<close> and takes both back.
\<close>

definition deadEnd :: grid where
  "deadEnd =
    [[Some 0, Some 0, Some 3, Some 4, Some 5, Some 6, Some 7, Some 8, Some 9],
     [Some 0, Some 0, Some 0, Some 0, Some 0, Some 0, Some 0, Some 0, Some 0],
     [Some 0, Some 0, Some 0, Some 0, Some 0, Some 0, Some 0, Some 0, Some 0],
     [Some 0, Some 1, Some 0, Some 0, Some 0, Some 0, Some 0, Some 0, Some 0],
     [Some 0, Some 2, Some 0, Some 0, Some 0, Some 0, Some 0, Some 0, Some 0],
     [Some 0, Some 0, Some 0, Some 0, Some 0, Some 0, Some 0, Some 0, Some 0],
     [Some 0, Some 0, Some 0, Some 0, Some 0, Some 0, Some 0, Some 0, Some 0],
     [Some 0, Some 0, Some 0, Some 0, Some 0, Some 0, Some 0, Some 0, Some 0],
     [Some 0, Some 0, Some 0, Some 0, Some 0, Some 0, Some 0, Some 0, Some 0]]"

text \<open>
  A board as \<^verbatim>\<open>fillDiagonal\<close> leaves it, and the completion the search finds for it.
\<close>

definition seed0 :: grid where
  "seed0 =
    [[Some 6, Some 5, Some 8, Some 0, Some 0, Some 0, Some 0, Some 0, Some 0],
     [Some 2, Some 7, Some 4, Some 0, Some 0, Some 0, Some 0, Some 0, Some 0],
     [Some 1, Some 9, Some 3, Some 0, Some 0, Some 0, Some 0, Some 0, Some 0],
     [Some 0, Some 0, Some 0, Some 9, Some 4, Some 8, Some 0, Some 0, Some 0],
     [Some 0, Some 0, Some 0, Some 7, Some 2, Some 6, Some 0, Some 0, Some 0],
     [Some 0, Some 0, Some 0, Some 3, Some 1, Some 5, Some 0, Some 0, Some 0],
     [Some 0, Some 0, Some 0, Some 0, Some 0, Some 0, Some 9, Some 3, Some 8],
     [Some 0, Some 0, Some 0, Some 0, Some 0, Some 0, Some 6, Some 4, Some 5],
     [Some 0, Some 0, Some 0, Some 0, Some 0, Some 0, Some 7, Some 1, Some 2]]"

definition sol0 :: grid where
  "sol0 =
    [[Some 6, Some 5, Some 8, Some 1, Some 3, Some 2, Some 4, Some 7, Some 9],
     [Some 2, Some 7, Some 4, Some 5, Some 6, Some 9, Some 1, Some 8, Some 3],
     [Some 1, Some 9, Some 3, Some 4, Some 8, Some 7, Some 2, Some 5, Some 6],
     [Some 3, Some 1, Some 2, Some 9, Some 4, Some 8, Some 5, Some 6, Some 7],
     [Some 4, Some 8, Some 5, Some 7, Some 2, Some 6, Some 3, Some 9, Some 1],
     [Some 7, Some 6, Some 9, Some 3, Some 1, Some 5, Some 8, Some 2, Some 4],
     [Some 5, Some 2, Some 1, Some 6, Some 7, Some 4, Some 9, Some 3, Some 8],
     [Some 8, Some 3, Some 7, Some 2, Some 9, Some 1, Some 6, Some 4, Some 5],
     [Some 9, Some 4, Some 6, Some 8, Some 5, Some 3, Some 7, Some 1, Some 2]]"

text \<open>
  A sequence of results of \<^verbatim>\<open>Math.random\<close>, scaled as described above: the first
  thirty seed the diagonal boxes with \<open>seed0\<close> (the second, twelfth and twenty-second
  are rejected by \<^verbatim>\<open>isSafeInBox\<close>), the others, \<open>removal0\<close>, pick the cells to clear
  (some of them twice). \<open>puzzle30\<close>, \<open>puzzle40\<close> and \<open>puzzle50\<close> are what is left of
  \<open>sol0\<close> after 30, 40 and 50 cells have been cleared, \<open>rest30\<close>, \<open>rest40\<close> and
  \<open>rest50\<close> the draws not used.
\<close>

definition draws0 :: "nat list" where
  "draws0 =
    [5, 5, 13, 25, 1, 15, 21, 0, 17, 20, 17, 8, 21, 7, 15, 19, 5, 11, 18, 4, 26, 8,
     2, 16, 23, 3, 13, 24, 0, 10, 108, 119, 40, 189, 33, 98, 73, 120, 77, 106, 45,
     56, 139, 132, 35, 10, 57, 14, 43, 144, 45, 155, 76, 69, 134, 109, 156, 113,
     142, 81, 92, 13, 6, 71, 46, 93, 50, 79, 18, 29, 112, 105, 8, 145, 30, 149, 16,
     117, 128, 49, 42, 107, 82, 129, 86, 115, 54, 65, 148, 141, 44, 19, 66, 23, 52,
     153, 2, 85, 78, 143, 118, 3]"

definition removal0 :: "nat list" where
  "removal0 =
    [108, 119, 40, 189, 33, 98, 73, 120, 77, 106, 45, 56, 139, 132, 35, 10, 57, 14,
     43, 144, 45, 155, 76, 69, 134, 109, 156, 113, 142, 81, 92, 13, 6, 71, 46, 93,
     50, 79, 18, 29, 112, 105, 8, 145, 30, 149, 16, 117, 128, 49, 42, 107, 82, 129,
     86, 115, 54, 65, 148, 141, 44, 19, 66, 23, 52, 153, 2, 85, 78, 143, 118, 3]"

definition puzzle30 :: grid where
  "puzzle30 =
    [[Some 0, Some 5, Some 8, Some 1, Some 3, Some 2, Some 4, Some 7, Some 9],
     [Some 2, Some 0, Some 0, Some 5, Some 0, Some 0, Some 1, Some 8, Some 0],
     [Some 1, Some 9, Some 3, Some 4, Some 8, Some 7, Some 2, Some 0, Some 6],
     [Some 0, Some 0, Some 2, Some 9, Some 4, Some 0, Some 0, Some 6, Some 0],
     [Some 4, Some 8, Some 0, Some 0, Some 0, Some 6, Some 3, Some 0, Some 1],
     [Some 0, Some 6, Some 9, Some 3, Some 1, Some 5, Some 0, Some 2, Some 0],
     [Some 5, Some 2, Some 0, Some 0, Some 0, Some 4, Some 9, Some 0, Some 8],
     [Some 0, Some 3, Some 7, Some 2, Some 9, Some 1, Some 0, Some 4, Some 5],
     [Some 9, Some 0, Some 0, Some 0, Some 0, Some 0, Some 7, Some 1, Some 2]]"

definition rest30 :: "nat list" where
  "rest30 =
    [6, 71, 46, 93, 50, 79, 18, 29, 112, 105, 8, 145, 30, 149, 16, 117, 128, 49, 42,
     107, 82, 129, 86, 115, 54, 65, 148, 141, 44, 19, 66, 23, 52, 153, 2, 85, 78,
     143, 118, 3]"

definition puzzle40 :: grid where
  "puzzle40 =
    [[Some 0, Some 5, Some 8, Some 1, Some 3, Some 2, Some 0, Some 7, Some 9],
     [Some 2, Some 0, Some 0, Some 0, Some 0, Some 0, Some 1, Some 8, Some 0],
     [Some 0, Some 9, Some 3, Some 4, Some 8, Some 7, Some 0, Some 0, Some 6],
     [Some 0, Some 0, Some 0, Some 9, Some 0, Some 0, Some 0, Some 6, Some 0],
     [Some 4, Some 8, Some 0, Some 0, Some 0, Some 6, Some 3, Some 0, Some 1],
     [Some 0, Some 0, Some 9, Some 3, Some 1, Some 0, Some 0, Some 2, Some 0],
     [Some 5, Some 2, Some 0, Some 0, Some 0, Some 4, Some 9, Some 0, Some 8],
     [Some 0, Some 3, Some 7, Some 2, Some 9, Some 1, Some 0, Some 4, Some 0],
     [Some 9, Some 0, Some 0, Some 0, Some 0, Some 0, Some 7, Some 0, Some 2]]"

definition rest40 :: "nat list" where
  "rest40 =
    [8, 145, 30, 149, 16, 117, 128, 49, 42, 107, 82, 129, 86, 115, 54, 65, 148, 141,
     44, 19, 66, 23, 52, 153, 2, 85, 78, 143, 118, 3]"

definition puzzle50 :: grid where
  "puzzle50 =
    [[Some 0, Some 5, Some 8, Some 1, Some 3, Some 2, Some 0, Some 7, Some 0],
     [Some 2, Some 0, Some 0, Some 0, Some 0, Some 0, Some 1, Some 0, Some 0],
     [Some 0, Some 9, Some 3, Some 4, Some 8, Some 7, Some 0, Some 0, Some 0],
     [Some 0, Some 0, Some 0, Some 0, Some 0, Some 0, Some 0, Some 6, Some 0],
     [Some 0, Some 8, Some 0, Some 0, Some 0, Some 6, Some 0, Some 0, Some 1],
     [Some 0, Some 0, Some 0, Some 3, Some 0, Some 0, Some 0, Some 2, Some 0],
     [Some 5, Some 2, Some 0, Some 0, Some 0, Some 4, Some 9, Some 0, Some 8],
     [Some 0, Some 0, Some 7, Some 2, Some 9, Some 0, Some 0, Some 4, Some 0],
     [Some 9, Some 0, Some 0, Some 0, Some 0, Some 0, Some 7, Some 0, Some 2]]"

definition rest50 :: "nat list" where
  "rest50 =
    [82, 129, 86, 115, 54, 65, 148, 141, 44, 19, 66, 23, 52, 153, 2, 85, 78, 143,
     118, 3]"

text \<open>\<open>seed0\<close> after the first placement of the search.\<close>

definition firstPlaced :: grid where
  "firstPlaced = put seed0 0 3 (Some 1)"

text \<open>
  The board \<open>deadEnd\<close> at the moment of the first undo: the \<open>1\<close> placed at \<open>(0, 0)\<close>
  is still there.
\<close>

definition deadEndPlaced :: grid where
  "deadEndPlaced = put deadEnd 0 0 (Some 1)"

text \<open>
  A generator fresh from its constructor, and what \<^verbatim>\<open>generateNewGame()\<close> makes of it with
  the draws \<open>draws0\<close>: the heap, the generator's fields and the returned references.
  \<open>heap1w\<close> is \<open>heap1\<close> after \<^verbatim>\<open>initial[0][1] = 7\<close>.
\<close>

definition state0 :: "heap \<times> csp" where
  "state0 = construct []"

definition heap1 :: heap where
  "heap1 = fst state0 @ [Rows [11..<20]] @ map Cells puzzle40 @ [Rows [21..<30]] @ map Cells sol0"

definition this1 :: csp where
  "this1 = \<lparr>boardRef = 10, solutionRef = Some 20\<rparr>"

definition refs1 :: gameRefs where
  "refs1 = \<lparr>initialAt = 10, solutionAt = 20\<rparr>"

definition heap1w :: heap where
  "heap1w = heap1[11 := Cells (putRow (puzzle40 ! 0) 1 (Some 7))]"


section \<open>Reads and writes on a grid\<close>

lemma isGrid_iff:
  "isGrid board \<longleftrightarrow>
     length board = 9 \<and>
     (\<forall>i<9. length (board ! i) = 9 \<and> (\<forall>j<9. \<exists>v\<le>9. board ! i ! j = Some v))"
proof -
  have d: "\<And>c. isDigit c \<longleftrightarrow> (\<exists>v\<le>9. c = Some v)"
    by (auto simp: isDigit_def split: option.splits)
  show ?thesis
    unfolding isGrid_def list_all_length d by auto
qed

lemma box_origin: "r - r mod 3 = 3 * (r div (3::nat))"
  by (simp add: minus_mod_eq_mult_div)

lemma box_bound:
  assumes "row < 9" and "i < 3"
  shows "i + row - row mod 3 < (9::nat)"
proof -
  have "row mod 3 \<le> row" by (rule mod_less_eq_dividend)
  then have "i + row - row mod 3 = i + (row - row mod 3)" by (simp only: Nat.add_diff_assoc)
  also have "\<dots> = i + 3 * (row div 3)" by (simp only: box_origin)
  finally have e: "i + row - row mod 3 = i + 3 * (row div 3)" .
  have "row div 3 < 3" using assms(1) by (simp add: less_mult_imp_div_less)
  with assms(2) e show ?thesis by linarith
qed

lemma box_member:
  assumes "i div 3 = r div (3::nat)"
  shows "\<exists>a<3. i = a + (r - r mod 3)"
proof -
  have "r - r mod 3 = 3 * (i div 3)" using assms by (simp only: box_origin)
  then have "i mod 3 + (r - r mod 3) = i" by (simp only: mod_mult_div_eq)
  moreover have "i mod 3 < 3" by simp
  ultimately show ?thesis by metis
qed

lemma box_div:
  assumes "a < (3::nat)"
  shows "(a + (r - r mod 3)) div 3 = r div 3"
  using assms by (simp add: box_origin)

lemma rd_grid: "isGrid board \<Longrightarrow> i < 9 \<Longrightarrow> j < 9 \<Longrightarrow> rd board i j = Inr (board ! i ! j)"
  by (simp add: isGrid_iff rd_def)

lemma rd_grid_ex:
  "isGrid board \<Longrightarrow> i < 9 \<Longrightarrow> j < 9 \<Longrightarrow> \<exists>v\<le>9. rd board i j = Inr (Some v)"
  by (auto simp: isGrid_iff rd_def)

lemma rd_row_ok: "i < length board \<Longrightarrow> \<exists>v. rd board i j = Inr v"
  by (simp add: rd_def)

lemma length_put [simp]: "length (put board i j v) = length board"
  by (simp add: put_def)

lemma rd_put:
  "i < length board \<Longrightarrow> j < length (board ! i) \<Longrightarrow>
   rd (put board i j x) r c = (if r = i \<and> c = j then Inr x else rd board r c)"
  by (auto simp: rd_def put_def putRow_def nth_list_update)

lemma isGrid_put:
  "isGrid board \<Longrightarrow> i < 9 \<Longrightarrow> j < 9 \<Longrightarrow> v \<le> 9 \<Longrightarrow> isGrid (put board i j (Some v))"
  by (auto simp: isGrid_iff put_def putRow_def nth_list_update)

lemma rd_put_grid:
  "isGrid board \<Longrightarrow> i < 9 \<Longrightarrow> j < 9 \<Longrightarrow>
   rd (put board i j x) r c = (if r = i \<and> c = j then Inr x else rd board r c)"
  by (rule rd_put) (simp_all add: isGrid_iff)

lemma scan_result:
  "\<forall>(i, j)\<in>set ps. i < length board \<Longrightarrow>
   scan board ps num = Inr (\<forall>(i, j)\<in>set ps. rd board i j \<noteq> Inr (Some num))"
proof (induction ps)
  case Nil
  show ?case by simp
next
  case (Cons p ps)
  obtain i j where p: "p = (i, j)" by (cases p)
  with Cons.prems have "i < length board" by simp
  then obtain v where v: "rd board i j = Inr v" using rd_row_ok by blast
  from Cons show ?case using p v by auto
qed

lemma rowCells_set: "set (rowCells row) = {(row, x) | x. x < 9}"
  by (auto simp: rowCells_def)

lemma colCells_set: "set (colCells col) = {(x, col) | x. x < 9}"
  by (auto simp: colCells_def)

lemma boxCells_set:
  "set (boxCells r c) = {(i + r, j + c) | i j. i < 3 \<and> j < 3}"
  by (auto simp: boxCells_def)

lemma isValid_result:
  assumes "length board = 9" and "row < 9"
  shows "isValid board row col num =
           Inr (\<forall>(i, j)\<in>set (scanned row col). rd board i j \<noteq> Inr (Some num))"
proof -
  have r: "\<forall>(i, j)\<in>set (rowCells row). i < length board"
    using assms by (auto simp: rowCells_set)
  have c: "\<forall>(i, j)\<in>set (colCells col). i < length board"
    using assms by (auto simp: colCells_set)
  have b: "\<forall>(i, j)\<in>set (boxCells (row - row mod 3) (col - col mod 3)). i < length board"
    using assms by (auto simp: boxCells_set box_bound)
  show ?thesis
    unfolding isValid_def Let_def scan_result[OF r] scan_result[OF c] scan_result[OF b] scanned_def
    by (auto split: bool.splits)
qed

lemma sameUnit_sym: "sameUnit p q \<Longrightarrow> sameUnit q p"
  unfolding sameUnit_def by metis

lemma peers_scanned:
  assumes "i' < 9" and "j' < 9" and "sameUnit (i, j) (i', j')"
  shows "(i', j') \<in> set (scanned i j)"
proof -
  from assms(3) consider "i' = i" | "j' = j" | "i' div 3 = i div 3 \<and> j' div 3 = j div 3"
    unfolding sameUnit_def fst_conv snd_conv by metis
  then show ?thesis
  proof cases
    case 1
    with assms(2) show ?thesis by (simp add: scanned_def rowCells_set)
  next
    case 2
    with assms(1) show ?thesis by (simp add: scanned_def colCells_set)
  next
    case 3
    then obtain a b where "a < 3" "i' = a + (i - i mod 3)" "b < 3" "j' = b + (j - j mod 3)"
      using box_member[of i' i] box_member[of j' j] by auto
    then show ?thesis by (auto simp: scanned_def boxCells_set)
  qed
qed

lemma conflictFree_place:
  assumes g: "isGrid board" and cf: "conflictFree board"
    and i: "i < 9" and j: "j < 9"
    and v: "isValid board i j num = Inr True"
  shows "conflictFree (put board i j (Some num))"
  unfolding conflictFree_def
proof (intro allI impI notI)
  fix r c r' c' d
  assume r: "r < 9" and c: "c < 9" and r': "r' < 9" and c': "c' < 9"
    and d: "1 \<le> (d::nat)" and ne: "(r, c) \<noteq> (r', c')" and su: "sameUnit (r, c) (r', c')"
    and p: "rd (put board i j (Some num)) r c = Inr (Some d)"
    and q: "rd (put board i j (Some num)) r' c' = Inr (Some d)"
  from g have len: "length board = 9" by (simp add: isGrid_iff)
  from v isValid_result[OF len i, of j num]
  have free: "\<And>a b. (a, b) \<in> set (scanned i j) \<Longrightarrow> rd board a b \<noteq> Inr (Some num)"
    by auto
  show False
  proof (cases "(r, c) = (i, j)")
    case True
    with p have dn: "d = num" by (simp add: rd_put_grid[OF g i j])
    from True ne q have "rd board r' c' = Inr (Some d)"
      by (auto simp: rd_put_grid[OF g i j] split: if_splits)
    moreover from su True have "(r', c') \<in> set (scanned i j)"
      using peers_scanned[OF r' c'] by simp
    ultimately show False using free dn by blast
  next
    case False
    with p have p': "rd board r c = Inr (Some d)"
      by (auto simp: rd_put_grid[OF g i j] split: if_splits)
    show False
    proof (cases "(r', c') = (i, j)")
      case True
      with q have dn: "d = num" by (simp add: rd_put_grid[OF g i j])
      from su True have "(r, c) \<in> set (scanned i j)"
        using peers_scanned[OF r c, of i j] sameUnit_sym by blast
      with p' free dn show False by blast
    next
      case False
      with q have "rd board r' c' = Inr (Some d)"
        by (auto simp: rd_put_grid[OF g i j] split: if_splits)
      with cf r c r' c' d ne su p' show False
        unfolding conflictFree_def by blast
    qed
  qed
qed

lemma conflictFree_clear:
  assumes g: "isGrid board" and cf: "conflictFree board" and i: "i < 9" and j: "j < 9"
  shows "conflictFree (put board i j (Some 0))"
  unfolding conflictFree_def
proof (intro allI impI notI)
  fix r c r' c' d
  assume r: "r < 9" and c: "c < 9" and r': "r' < 9" and c': "c' < 9"
    and d: "1 \<le> (d::nat)" and ne: "(r, c) \<noteq> (r', c')" and su: "sameUnit (r, c) (r', c')"
    and p: "rd (put board i j (Some 0)) r c = Inr (Some d)"
    and q: "rd (put board i j (Some 0)) r' c' = Inr (Some d)"
  from p d have "rd board r c = Inr (Some d)"
    by (auto simp: rd_put_grid[OF g i j] split: if_splits)
  moreover from q d have "rd board r' c' = Inr (Some d)"
    by (auto simp: rd_put_grid[OF g i j] split: if_splits)
  ultimately show False using cf r c r' c' d ne su
    unfolding conflictFree_def by blast
qed

lemma allCells_set: "set allCells = {(i, j). i < 9 \<and> j < 9}"
  by (auto simp: allCells_def)

lemma firstEmpty_range:
  "firstEmpty board allCells = Inr (Some (i, j)) \<Longrightarrow> i < 9 \<and> j < 9"
  using firstEmpty_Some[of board allCells i j] by (simp add: allCells_set)

lemma inv_place:
  "okGrid board \<Longrightarrow> i < 9 \<Longrightarrow> j < 9 \<Longrightarrow> num \<le> 9 \<Longrightarrow> isValid board i j num = Inr True \<Longrightarrow>
   okGrid (put board i j (Some num))"
  by (simp add: okGrid_def isGrid_put conflictFree_place)

lemma inv_clear: "okGrid board \<Longrightarrow> i < 9 \<Longrightarrow> j < 9 \<Longrightarrow> okGrid (put board i j (Some 0))"
  by (simp add: okGrid_def isGrid_put conflictFree_clear)

lemma solve_inv:
  "okGrid board \<Longrightarrow> solveBoard board = Inr (ok, board') \<Longrightarrow> okGrid board' \<and> (ok \<longrightarrow> full board')"
  "okGrid board \<Longrightarrow> i < 9 \<Longrightarrow> j < 9 \<Longrightarrow> tryNums board i j num = Inr (ok, board') \<Longrightarrow>
     okGrid board' \<and> (ok \<longrightarrow> full board')"
proof (induction board and board i j num arbitrary: ok board' and ok board'
    rule: solveBoard_tryNums.induct)
  case (1 board)
  show ?case
  proof (cases "firstEmpty board allCells")
    case (Inl e)
    with "1.prems" show ?thesis by simp
  next
    case (Inr r)
    show ?thesis
    proof (cases r)
      case None
      with Inr "1.prems" show ?thesis by (auto simp: full_def)
    next
      case (Some p)
      obtain i j where p: "p = (i, j)" by (cases p)
      with Inr Some have fe: "firstEmpty board allCells = Inr (Some (i, j))" by simp
      with "1.prems" have t: "tryNums board i j 1 = Inr (ok, board')" by simp
      from fe have "i < 9" "j < 9" using firstEmpty_range by blast+
      with "1.IH"(1)[OF Inr Some p[symmetric] "1.prems"(1) _ _ t] show ?thesis by simp
    qed
  qed
next
  case (2 board i j num)
  note res = \<open>tryNums board i j num = Inr (ok, board')\<close>
  note iv = \<open>okGrid board\<close>
  note i = \<open>i < 9\<close> and j = \<open>j < 9\<close>
  from iv have len: "length board = 9" by (simp add: okGrid_def isGrid_iff)
  show ?case
  proof (cases "num \<le> 9")
    case False
    with res iv show ?thesis by simp
  next
    case le: True
    obtain valid where v: "isValid board i j num = Inr valid"
      using isValid_result[OF len i] by blast
    show ?thesis
    proof (cases valid)
      case False
      with res le v have "tryNums board i j (num + 1) = Inr (ok, board')" by simp
      with "2.IH"(3)[OF le v _ iv i j] False show ?thesis by simp
    next
      case True
      define board1 where "board1 = put board i j (Some num)"
      have w1: "wr board i j (Some num) = Inr board1"
        using len i by (simp add: wr_def board1_def)
      have iv1: "okGrid board1"
        unfolding board1_def using inv_place[OF iv i j le] v True by simp
      obtain solved board2 where s: "solveBoard board1 = Inr (solved, board2)"
        using res le v True w1 by (auto split: sum.splits)
      from "2.IH"(1)[OF le v True w1 iv1 s] have iv2: "okGrid board2" and f2: "solved \<longrightarrow> full board2"
        by simp_all
      show ?thesis
      proof (cases solved)
        case True
        with res le v \<open>valid\<close> w1 s have "ok = True" "board' = board2" by simp_all
        with iv2 f2 True show ?thesis by simp
      next
        case False
        define board3 where "board3 = put board2 i j (Some 0)"
        from iv2 have len2: "length board2 = 9" by (simp add: okGrid_def isGrid_iff)
        have w2: "wr board2 i j (Some 0) = Inr board3"
          using len2 i by (simp add: wr_def board3_def)
        have iv3: "okGrid board3" unfolding board3_def using inv_clear[OF iv2 i j] .
        from res le v \<open>valid\<close> w1 s False w2
        have t: "tryNums board3 i j (num + 1) = Inr (ok, board')" by simp
        from "2.IH"(2)[OF le v \<open>valid\<close> w1 s refl _ w2 iv3 i j t] False
        show ?thesis by simp
      qed
    qed
  qed
qed

lemma own_cell_scanned: "col < 9 \<Longrightarrow> (row, col) \<in> set (scanned row col)"
  by (simp add: scanned_def rowCells_set)

lemma isValid_own_cell:
  assumes "length board = 9" and "row < 9" and "col < 9"
  shows "isValid board row col num =
           Inr (rd board row col \<noteq> Inr (Some num) \<and> noDuplicate board row col num)"
proof -
  have "(\<forall>(i, j)\<in>set (scanned row col). rd board i j \<noteq> Inr (Some num)) \<longleftrightarrow>
        (rd board row col \<noteq> Inr (Some num) \<and> noDuplicate board row col num)"
    using own_cell_scanned[OF assms(3), of row]
    by (auto simp: noDuplicate_def list_all_iff)
  then show ?thesis by (simp add: isValid_result[OF assms(1,2)])
qed

lemma isValid_examples:
  assumes "length board = 9" and "rd board 0 0 = Inr (Some 5)"
  shows "isValid board 0 3 5 = Inr False \<and> isValid board 3 0 5 = Inr False \<and>
         isValid board 1 1 5 = Inr False"
proof -
  have "(0, 0) \<in> set (scanned 0 3)" by (simp add: scanned_def rowCells_set)
  moreover have "(0, 0) \<in> set (scanned 3 0)" by (simp add: scanned_def colCells_set)
  moreover have "(0, 0) \<in> set (scanned 1 1)" by (simp add: scanned_def boxCells_set)
  ultimately show ?thesis
    using assms(2) by (auto simp: isValid_result[OF assms(1)])
qed

lemma solve_restore:
  "solveBoard board = Inr (False, board') \<Longrightarrow> board' = board"
  by (rule restore_partial(1)[OF solve_total(1)])

lemma frame_refl: "frame board board"
  by (simp add: frame_def)

lemma frame_trans: "frame a b \<Longrightarrow> frame b c \<Longrightarrow> frame a c"
  unfolding frame_def by blast

lemma rd_in_range:
  "rd board i j = Inr (Some v) \<Longrightarrow> i < length board \<and> j < length (board ! i)"
  by (auto simp: rd_def split: if_splits)

lemma frame_put: "rd board i j = Inr (Some 0) \<Longrightarrow> frame board (put board i j x)"
  using rd_in_range[of board i j 0] by (auto simp: frame_def rd_put)

lemma solve_frame:
  "solveBoard board = Inr (ok, board') \<Longrightarrow> frame board board'"
  "rd board i j = Inr (Some 0) \<Longrightarrow> tryNums board i j num = Inr (ok, board') \<Longrightarrow>
     frame board board'"
proof (induction board and board i j num arbitrary: ok board' and ok board'
    rule: solveBoard_tryNums.induct)
  case (1 board)
  show ?case
  proof (cases "firstEmpty board allCells")
    case (Inl e)
    with "1.prems" show ?thesis by simp
  next
    case (Inr r)
    show ?thesis
    proof (cases r)
      case None
      with Inr "1.prems" show ?thesis by (auto simp: frame_refl)
    next
      case (Some p)
      obtain i j where p: "p = (i, j)" by (cases p)
      with Inr Some have fe: "firstEmpty board allCells = Inr (Some (i, j))" by simp
      with "1.prems" have t: "tryNums board i j 1 = Inr (ok, board')" by simp
      from fe have "rd board i j = Inr (Some 0)" by (simp add: firstEmpty_Some)
      with "1.IH"(1)[OF Inr Some p[symmetric] _ t] show ?thesis by simp
    qed
  qed
next
  case (2 board i j num)
  note res = \<open>tryNums board i j num = Inr (ok, board')\<close>
  note z = \<open>rd board i j = Inr (Some 0)\<close>
  show ?case
  proof (cases "num \<le> 9")
    case False
    with res show ?thesis by (simp add: frame_refl)
  next
    case le: True
    from res le obtain valid where v: "isValid board i j num = Inr valid"
      by (auto split: sum.splits)
    show ?thesis
    proof (cases valid)
      case False
      with res le v have "tryNums board i j (num + 1) = Inr (ok, board')" by simp
      with "2.IH"(3)[OF le v _ z] False show ?thesis by simp
    next
      case True
      from res le v True obtain board1 solved board2 where
        w1: "wr board i j (Some num) = Inr board1"
        and s: "solveBoard board1 = Inr (solved, board2)"
        by (auto split: sum.splits)
      from w1 have b1: "board1 = put board i j (Some num)" by (simp add: wr_Inr)
      have f1: "frame board board1" unfolding b1 by (rule frame_put[OF z])
      from "2.IH"(1)[OF le v True w1 s] have f2: "frame board1 board2" .
      show ?thesis
      proof (cases solved)
        case True
        with res le v \<open>valid\<close> w1 s have "board' = board2" by simp
        with f1 f2 show ?thesis using frame_trans by blast
      next
        case False
        with s have b2: "board2 = board1" using solve_restore[of board1 board2] by simp
        from res le v \<open>valid\<close> w1 s False obtain board3 where
          w2: "wr board2 i j (Some 0) = Inr board3"
          and t: "tryNums board3 i j (num + 1) = Inr (ok, board')"
          by (auto split: sum.splits)
        from w2 b2 b1 have "board3 = put board i j (Some 0)" by (simp add: wr_Inr put_put)
        with z have b3: "board3 = board" by (simp add: rd_put_same)
        from "2.IH"(2)[OF le v \<open>valid\<close> w1 s refl _ w2 _ t] False b3 z
        show ?thesis by simp
      qed
    qed
  qed
qed

lemma solve_deadEnd: "solveBoard deadEnd = Inr (False, deadEnd)"
  by code_simp

lemma solve_seed0: "solveBoard seed0 = Inr (True, sol0)"
  by code_simp


section \<open>Seeding, removal and what a full consistent grid is\<close>

lemma safeCells_set:
  "set (concat (map (\<lambda>i. map (\<lambda>j. (rowStart + i, colStart + j)) [0..<3]) [0..<3])) =
     {(rowStart + i, colStart + j) | i j. i < 3 \<and> j < 3}"
  by auto

lemma isSafeInBox_result:
  assumes "rowStart + 2 < length board"
  shows "isSafeInBox board rowStart colStart num =
           Inr (\<forall>i<3. \<forall>j<3. rd board (rowStart + i) (colStart + j) \<noteq> Inr (Some num))"
proof -
  let ?ps = "concat (map (\<lambda>i. map (\<lambda>j. (rowStart + i, colStart + j)) [0..<3]) [0..<3])"
  have "\<forall>(i, j)\<in>set ?ps. i < length board"
    using assms unfolding safeCells_set by auto
  from scan_result[OF this, of num] show ?thesis
    unfolding isSafeInBox_def safeCells_set by auto
qed

lemma drawSafe_Inr:
  "drawSafe board row col draws = Some (Inr (num, draws1)) \<Longrightarrow>
     1 \<le> num \<and> num \<le> 9 \<and> isSafeInBox board row col num = Inr True \<and>
     length draws1 < length draws"
proof (induction draws)
  case Nil
  then show ?case by simp
next
  case (Cons r draws)
  show ?case
  proof (cases "isSafeInBox board row col (r mod 9 + 1)")
    case (Inl e)
    with Cons.prems show ?thesis by simp
  next
    case (Inr safe)
    show ?thesis
    proof (cases safe)
      case True
      with Inr Cons.prems have "num = r mod 9 + 1" "draws1 = draws" by simp_all
      moreover have "r mod 9 < 9" by simp
      ultimately show ?thesis using Inr True by simp
    next
      case False
      with Inr Cons.prems have "drawSafe board row col draws = Some (Inr (num, draws1))"
        by simp
      with Cons.IH show ?thesis by simp
    qed
  qed
qed

lemma drawSafe_no_error:
  "rowStart + 2 < length board \<Longrightarrow> drawSafe board rowStart colStart draws \<noteq> Some (Inl e)"
  by (induction draws) (auto simp: isSafeInBox_result Let_def)

lemma diag_div:
  assumes "r0 mod 3 = (0::nat)" and "a < 3"
  shows "(r0 + a) div 3 = r0 div 3"
proof -
  from assms(1) have "r0 = 3 * (r0 div 3)" by (simp add: mod_eq_0_iff_dvd)
  then have "(r0 + a) div 3 = (3 * (r0 div 3) + a) div 3" by simp
  also have "\<dots> = r0 div 3" using assms(2) by simp
  finally show ?thesis .
qed

lemma diag_member:
  assumes "r0 mod 3 = (0::nat)" and "i div 3 = r0 div 3"
  shows "\<exists>a<3. i = r0 + a"
proof -
  from assms(1) have "r0 = 3 * (r0 div 3)" by (simp add: mod_eq_0_iff_dvd)
  with assms(2) have "r0 = 3 * (i div 3)" by simp
  then have "r0 + i mod 3 = i" by (simp only: mult_div_mod_eq)
  moreover have "i mod 3 < 3" by simp
  ultimately show ?thesis by metis
qed

lemma conflictFree_seed:
  assumes g: "isGrid board" and cf: "conflictFree board" and od: "offDiagEmpty board"
    and r0: "r0 mod 3 = 0" and a: "a < 3" and b: "b < 3"
    and i: "r0 + a < 9" and j: "r0 + b < 9" and n: "1 \<le> num"
    and safe: "isSafeInBox board r0 r0 num = Inr True"
  shows "conflictFree (put board (r0 + a) (r0 + b) (Some num))"
  unfolding conflictFree_def
proof (intro allI impI notI)
  fix r c r' c' d
  assume r: "r < 9" and c: "c < 9" and r': "r' < 9" and c': "c' < 9"
    and d: "1 \<le> (d::nat)" and ne: "(r, c) \<noteq> (r', c')" and su: "sameUnit (r, c) (r', c')"
    and p: "rd (put board (r0 + a) (r0 + b) (Some num)) r c = Inr (Some d)"
    and q: "rd (put board (r0 + a) (r0 + b) (Some num)) r' c' = Inr (Some d)"
  from g have len: "length board = 9" by (simp add: isGrid_iff)
  with i have "r0 + 2 < length board" using a r0 by presburger
  from safe isSafeInBox_result[OF this, of r0 num]
  have free: "\<And>x y. x < 3 \<Longrightarrow> y < 3 \<Longrightarrow> rd board (r0 + x) (r0 + y) \<noteq> Inr (Some num)"
    by simp
  have di: "(r0 + a) div 3 = r0 div 3" and dj: "(r0 + b) div 3 = r0 div 3"
    using diag_div[OF r0] a b by simp_all
  \<comment> \<open>a cell that shares a unit with the new cell and holds \<open>num\<close> does not exist\<close>
  have clash: False
    if x: "x < 9" and y: "y < 9" and s: "sameUnit (r0 + a, r0 + b) (x, y)"
      and h: "rd board x y = Inr (Some num)" for x y
  proof (cases "x div 3 = r0 div 3 \<and> y div 3 = r0 div 3")
    case True
    then obtain u w where "u < 3" "x = r0 + u" "w < 3" "y = r0 + w"
      using diag_member[OF r0, of x] diag_member[OF r0, of y] by auto
    with free h show False by blast
  next
    case False
    with s di dj have "x div 3 \<noteq> y div 3"
      unfolding sameUnit_def fst_conv snd_conv by metis
    with od x y have "rd board x y = Inr (Some 0)" by (simp add: offDiagEmpty_def)
    with h n show False by simp
  qed
  show False
  proof (cases "(r, c) = (r0 + a, r0 + b)")
    case True
    with p have dn: "d = num" by (simp add: rd_put_grid[OF g i j])
    from True ne q have "rd board r' c' = Inr (Some d)"
      by (auto simp: rd_put_grid[OF g i j] split: if_splits)
    with clash[OF r' c'] su True dn show False by simp
  next
    case False
    with p have p': "rd board r c = Inr (Some d)"
      by (auto simp: rd_put_grid[OF g i j] split: if_splits)
    show False
    proof (cases "(r', c') = (r0 + a, r0 + b)")
      case True
      with q have dn: "d = num" by (simp add: rd_put_grid[OF g i j])
      from su True have "sameUnit (r0 + a, r0 + b) (r, c)" using sameUnit_sym by blast
      with clash[OF r c] p' dn show False by simp
    next
      case False
      with q have "rd board r' c' = Inr (Some d)"
        by (auto simp: rd_put_grid[OF g i j] split: if_splits)
      with cf r c r' c' d ne su p' show False
        unfolding conflictFree_def by blast
    qed
  qed
qed

lemma offDiagEmpty_seed:
  assumes g: "isGrid board" and od: "offDiagEmpty board"
    and r0: "r0 mod 3 = 0" and a: "a < 3" and b: "b < 3"
    and i: "r0 + a < 9" and j: "r0 + b < 9"
  shows "offDiagEmpty (put board (r0 + a) (r0 + b) v)"
  unfolding offDiagEmpty_def
proof (intro allI impI)
  fix x y assume x: "x < 9" and y: "y < (9::nat)" and ne: "x div 3 \<noteq> y div 3"
  have "(r0 + a) div 3 = (r0 + b) div 3" using diag_div[OF r0] a b by simp
  with ne have "\<not> (x = r0 + a \<and> y = r0 + b)" by auto
  then have "rd (put board (r0 + a) (r0 + b) v) x y = rd board x y"
    by (auto simp: rd_put_grid[OF g i j])
  with od x y ne show "rd (put board (r0 + a) (r0 + b) v) x y = Inr (Some 0)"
    by (simp add: offDiagEmpty_def)
qed

lemma seeding_step:
  assumes "seeding board" and "r0 mod 3 = 0" and "a < 3" and "b < 3"
    and "r0 + a < 9" and "r0 + b < 9" and "1 \<le> num" and "num \<le> 9"
    and "isSafeInBox board r0 r0 num = Inr True"
  shows "seeding (put board (r0 + a) (r0 + b) (Some num))"
  using assms unfolding seeding_def
  by (simp add: isGrid_put conflictFree_seed offDiagEmpty_seed)

lemma zerosRow_Cons_mid:
  "zerosRow (xs @ v # ys) = zerosRow xs + (if v = Some 0 then 1 else 0) + zerosRow ys"
  by (simp add: zerosRow_def)

lemma zerosRow_putRow_ge: "zerosRow row \<le> Suc (zerosRow (putRow row j v))"
proof (cases "j < length row")
  case True
  then have "putRow row j v = take j row @ v # drop (Suc j) row"
    by (simp add: putRow_def upd_conv_take_nth_drop)
  then have a: "zerosRow (putRow row j v) =
      zerosRow (take j row) + (if v = Some 0 then 1 else 0) + zerosRow (drop (Suc j) row)"
    by (simp only: zerosRow_Cons_mid)
  have "zerosRow row = zerosRow (take j row @ row ! j # drop (Suc j) row)"
    by (rule arg_cong[OF id_take_nth_drop[OF True]])
  then have b: "zerosRow row =
      zerosRow (take j row) + (if row ! j = Some 0 then 1 else 0) + zerosRow (drop (Suc j) row)"
    by (simp only: zerosRow_Cons_mid)
  from a b show ?thesis by (simp split: if_splits)
next
  case False
  then show ?thesis by (simp add: putRow_def zerosRow_def)
qed

lemma zeros_put_ge: "zeros board \<le> Suc (zeros (put board i j v))"
proof (cases "i < length board")
  case True
  then have "put board i j v = take i board @ putRow (board ! i) j v # drop (Suc i) board"
    by (simp add: put_def upd_conv_take_nth_drop)
  then have a: "zeros (put board i j v) =
      zeros (take i board) + zerosRow (putRow (board ! i) j v) + zeros (drop (Suc i) board)"
    by (simp add: zeros_def)
  have "zeros board = zeros (take i board @ board ! i # drop (Suc i) board)"
    by (rule arg_cong[OF id_take_nth_drop[OF True]])
  then have b: "zeros board =
      zeros (take i board) + zerosRow (board ! i) + zeros (drop (Suc i) board)"
    by (simp add: zeros_def)
  from a b zerosRow_putRow_ge[of "board ! i" j v] show ?thesis by simp
next
  case False
  then show ?thesis by (simp add: put_def)
qed

lemma fillCells_seeding:
  assumes "seeding board" and "r0 mod 3 = 0" and "r0 + 2 < 9"
    and "\<forall>(a, b)\<in>set offs. a < 3 \<and> b < 3"
    and "fillCells board r0 r0 offs draws = Some (Inr (board', draws'))"
  shows "seeding board' \<and> zeros board \<le> zeros board' + length offs"
  using assms
proof (induction offs arbitrary: board draws)
  case Nil
  then show ?case by simp
next
  case (Cons p offs)
  obtain a b where p: "p = (a, b)" by (cases p)
  with Cons.prems(4) have a: "a < 3" and b: "b < 3" by simp_all
  from Cons.prems(5) p obtain num draws1 board1 where
    d: "drawSafe board r0 r0 draws = Some (Inr (num, draws1))"
    and w: "wr board (r0 + a) (r0 + b) (Some num) = Inr board1"
    and f: "fillCells board1 r0 r0 offs draws1 = Some (Inr (board', draws'))"
    by (auto split: option.splits sum.splits)
  from drawSafe_Inr[OF d] have n: "1 \<le> num" "num \<le> 9"
    and safe: "isSafeInBox board r0 r0 num = Inr True" by simp_all
  from w have b1: "board1 = put board (r0 + a) (r0 + b) (Some num)" by (simp add: wr_Inr)
  have i: "r0 + a < 9" and j: "r0 + b < 9" using a b Cons.prems(3) by simp_all
  have s1: "seeding board1"
    unfolding b1 using seeding_step[OF Cons.prems(1,2) a b i j n safe] .
  from Cons.prems(4) have rest: "\<forall>(a, b)\<in>set offs. a < 3 \<and> b < 3" by simp
  from Cons.IH[OF s1 Cons.prems(2,3) rest f]
  have "seeding board'" and "zeros board1 \<le> zeros board' + length offs" by simp_all
  moreover have "zeros board \<le> Suc (zeros board1)" unfolding b1 by (rule zeros_put_ge)
  ultimately show ?case by simp
qed

lemma fillCells_length:
  "fillCells board row col offs draws = Some (Inr (board', draws')) \<Longrightarrow>
   length board' = length board"
proof (induction offs arbitrary: board draws)
  case Nil
  then show ?case by simp
next
  case (Cons p offs)
  obtain a b where p: "p = (a, b)" by (cases p)
  from Cons.prems p obtain num draws1 board1 where
    w: "wr board (row + a) (col + b) (Some num) = Inr board1"
    and f: "fillCells board1 row col offs draws1 = Some (Inr (board', draws'))"
    by (auto split: option.splits sum.splits)
  from w have "length board1 = length board" by (auto simp: wr_Inr)
  with Cons.IH[OF f] show ?case by simp
qed

lemma fillCells_no_error:
  assumes "row + 2 < length board" and "\<forall>(a, b)\<in>set offs. a < 3"
  shows "fillCells board row col offs draws \<noteq> Some (Inl e)"
  using assms
proof (induction offs arbitrary: board draws)
  case Nil
  show ?case by simp
next
  case (Cons p offs)
  obtain a b where p: "p = (a, b)" by (cases p)
  with Cons.prems(2) have a: "a < 3" by simp
  from Cons.prems(2) have rest: "\<forall>(a, b)\<in>set offs. a < 3" by simp
  show ?case
  proof (cases "drawSafe board row col draws")
    case None
    with p show ?thesis by simp
  next
    case (Some res)
    show ?thesis
    proof (cases res)
      case (Inl e')
      with Some drawSafe_no_error[OF Cons.prems(1), of col draws e'] show ?thesis by simp
    next
      case (Inr nd)
      obtain num draws1 where nd: "nd = (num, draws1)" by (cases nd)
      define board1 where "board1 = put board (row + a) (col + b) (Some num)"
      have w: "wr board (row + a) (col + b) (Some num) = Inr board1"
        using a Cons.prems(1) by (simp add: wr_def board1_def)
      have "row + 2 < length board1" using Cons.prems(1) by (simp add: board1_def)
      from Cons.IH[OF this rest, of draws1] Some Inr nd p w show ?thesis by simp
    qed
  qed
qed

lemma boxOffsets_bound: "\<forall>(a, b)\<in>set boxOffsets. a < 3 \<and> b < 3"
  by (auto simp: boxOffsets_def)

lemma length_boxOffsets: "length boxOffsets = 9"
  by code_simp

lemma fillBox_seeding:
  assumes "seeding board" and "r0 mod 3 = 0" and "r0 + 2 < 9"
    and "fillBox board r0 r0 draws = Some (Inr (board', draws'))"
  shows "seeding board' \<and> zeros board \<le> zeros board' + 9"
  using fillCells_seeding[OF assms(1-3) boxOffsets_bound] assms(4)
  by (simp add: fillBox_def length_boxOffsets)

lemma fillBox_no_error:
  "row + 2 < length board \<Longrightarrow> fillBox board row col draws \<noteq> Some (Inl e)"
  unfolding fillBox_def using boxOffsets_bound by (intro fillCells_no_error) auto

lemma fillBox_length:
  "fillBox board row col draws = Some (Inr (board', draws')) \<Longrightarrow> length board' = length board"
  unfolding fillBox_def by (rule fillCells_length)

lemma fillDiagonal_unfold:
  "fillDiagonal board draws =
     (case fillBox board 0 0 draws of
        None \<Rightarrow> None
      | Some (Inl e) \<Rightarrow> Some (Inl e)
      | Some (Inr (board1, draws1)) \<Rightarrow>
         (case fillBox board1 3 3 draws1 of
            None \<Rightarrow> None
          | Some (Inl e) \<Rightarrow> Some (Inl e)
          | Some (Inr (board2, draws2)) \<Rightarrow>
             (case fillBox board2 6 6 draws2 of
                None \<Rightarrow> None
              | Some (Inl e) \<Rightarrow> Some (Inl e)
              | Some (Inr (board3, draws3)) \<Rightarrow> Some (Inr (board3, draws3)))))"
proof -
  have 9: "\<And>b d. fillDiagonalFrom 9 b d = Some (Inr (b, d))"
    by (subst fillDiagonalFrom.simps) simp
  have 6: "\<And>b d. fillDiagonalFrom 6 b d =
      (case fillBox b 6 6 d of None \<Rightarrow> None | Some (Inl e) \<Rightarrow> Some (Inl e)
       | Some (Inr (b1, d1)) \<Rightarrow> Some (Inr (b1, d1)))"
    by (subst fillDiagonalFrom.simps) (simp add: 9 split: option.splits sum.splits)
  have 3: "\<And>b d. fillDiagonalFrom 3 b d =
      (case fillBox b 3 3 d of None \<Rightarrow> None | Some (Inl e) \<Rightarrow> Some (Inl e)
       | Some (Inr (b1, d1)) \<Rightarrow> fillDiagonalFrom 6 b1 d1)"
    by (subst fillDiagonalFrom.simps) (simp split: option.splits sum.splits)
  have 0: "\<And>b d. fillDiagonalFrom 0 b d =
      (case fillBox b 0 0 d of None \<Rightarrow> None | Some (Inl e) \<Rightarrow> Some (Inl e)
       | Some (Inr (b1, d1)) \<Rightarrow> fillDiagonalFrom 3 b1 d1)"
    by (subst fillDiagonalFrom.simps) (simp split: option.splits sum.splits)
  show ?thesis unfolding fillDiagonal_def 0 3 6 ..
qed

lemma fillDiagonal_seeding:
  assumes "seeding board" and "fillDiagonal board draws = Some (Inr (board', draws'))"
  shows "seeding board' \<and> zeros board \<le> zeros board' + 27"
proof -
  from assms(2) obtain board1 draws1 board2 draws2 where
    b1: "fillBox board 0 0 draws = Some (Inr (board1, draws1))"
    and b2: "fillBox board1 3 3 draws1 = Some (Inr (board2, draws2))"
    and b3: "fillBox board2 6 6 draws2 = Some (Inr (board', draws'))"
    unfolding fillDiagonal_unfold by (auto split: option.splits sum.splits)
  from fillBox_seeding[OF assms(1) _ _ b1]
  have s1: "seeding board1" and z1: "zeros board \<le> zeros board1 + 9" by simp_all
  from fillBox_seeding[OF s1 _ _ b2]
  have s2: "seeding board2" and z2: "zeros board1 \<le> zeros board2 + 9" by simp_all
  from fillBox_seeding[OF s2 _ _ b3]
  have s3: "seeding board'" and z3: "zeros board2 \<le> zeros board' + 9" by simp_all
  from s3 z1 z2 z3 show ?thesis by simp
qed

lemma fillDiagonal_no_error:
  assumes "length board = 9"
  shows "fillDiagonal board draws \<noteq> Some (Inl e)"
proof
  assume err: "fillDiagonal board draws = Some (Inl e)"
  have n0: "fillBox board 0 0 draws \<noteq> Some (Inl e)"
    using assms by (intro fillBox_no_error) simp
  with err obtain board1 draws1 where b1: "fillBox board 0 0 draws = Some (Inr (board1, draws1))"
    unfolding fillDiagonal_unfold by (auto split: option.splits sum.splits)
  from fillBox_length[OF b1] assms have l1: "length board1 = 9" by simp
  then have n1: "fillBox board1 3 3 draws1 \<noteq> Some (Inl e)"
    by (intro fillBox_no_error) simp
  with err b1 obtain board2 draws2 where
    b2: "fillBox board1 3 3 draws1 = Some (Inr (board2, draws2))"
    unfolding fillDiagonal_unfold by (auto split: option.splits sum.splits)
  from fillBox_length[OF b2] l1 have l2: "length board2 = 9" by simp
  then have n2: "fillBox board2 6 6 draws2 \<noteq> Some (Inl e)"
    by (intro fillBox_no_error) simp
  with err b1 b2 show False
    unfolding fillDiagonal_unfold by (auto split: option.splits sum.splits)
qed

lemma cleared_refl: "cleared board board"
  by (simp add: cleared_def)

lemma cleared_trans: "cleared a b \<Longrightarrow> cleared b c \<Longrightarrow> cleared a c"
  unfolding cleared_def by metis

lemma cleared_put: "isGrid board \<Longrightarrow> i < 9 \<Longrightarrow> j < 9 \<Longrightarrow> cleared board (put board i j (Some 0))"
  by (simp add: cleared_def rd_put_grid)

lemma zeros_clear:
  assumes "rd board i j = Inr (Some v)" and "v \<noteq> 0"
  shows "zeros (put board i j (Some 0)) = Suc (zeros board)"
proof -
  from assms(2) obtain n where v: "v = Suc n" by (cases v) auto
  from assms(1) have i: "i < length board" using rd_in_range by blast
  from assms(1) v have "put board i j (Some (Suc n)) = board" by (simp add: rd_put_same)
  with zeros_put[OF i, of j n] show ?thesis by simp
qed

lemma cell_index: "(r mod 81) div 9 < (9::nat)" "(r mod 81) mod 9 < (9::nat)"
proof -
  have "r mod 81 < 9 * 9" by simp
  then show "(r mod 81) div 9 < 9" by (simp only: less_mult_imp_div_less)
  show "(r mod 81) mod 9 < 9" by simp
qed

lemma removeDigits_grid:
  "isGrid board \<Longrightarrow> removeDigits board count draws = Some (Inr (board', draws')) \<Longrightarrow>
   isGrid board' \<and> zeros board' = zeros board + count \<and> cleared board board'"
proof (induction draws arbitrary: board count)
  case Nil
  then show ?case by (simp add: cleared_refl split: if_splits)
next
  case (Cons r draws)
  show ?case
  proof (cases "count > 0")
    case False
    with Cons.prems show ?thesis by (simp add: cleared_refl)
  next
    case True
    define i where "i = (r mod 81) div 9"
    define j where "j = (r mod 81) mod 9"
    have i: "i < 9" and j: "j < 9" unfolding i_def j_def by (rule cell_index)+
    from rd_grid_ex[OF Cons.prems(1) i j] obtain v where
      v: "v \<le> 9" "rd board i j = Inr (Some v)" by blast
    show ?thesis
    proof (cases "v = 0")
      case True
      with Cons.prems(2) \<open>count > 0\<close> v
      have "removeDigits board count draws = Some (Inr (board', draws'))"
        by (simp add: Let_def i_def j_def)
      from Cons.IH[OF Cons.prems(1) this] show ?thesis .
    next
      case False
      define board1 where "board1 = put board i j (Some 0)"
      from Cons.prems(1) i have "i < length board" by (simp add: isGrid_iff)
      then have w: "wr board i j (Some 0) = Inr board1" by (simp add: wr_def board1_def)
      with Cons.prems(2) \<open>count > 0\<close> v False
      have r: "removeDigits board1 (count - 1) draws = Some (Inr (board', draws'))"
        by (simp add: Let_def i_def j_def)
      have g1: "isGrid board1" unfolding board1_def by (rule isGrid_put[OF Cons.prems(1) i j]) simp
      have z1: "zeros board1 = Suc (zeros board)"
        unfolding board1_def by (rule zeros_clear[OF v(2) False])
      have c1: "cleared board board1" unfolding board1_def by (rule cleared_put[OF Cons.prems(1) i j])
      from Cons.IH[OF g1 r] z1 c1 \<open>count > 0\<close> show ?thesis
        using cleared_trans by auto
    qed
  qed
qed

lemma removeDigits_no_error:
  "isGrid board \<Longrightarrow> removeDigits board count draws \<noteq> Some (Inl e)"
proof (induction draws arbitrary: board count)
  case Nil
  then show ?case by simp
next
  case (Cons r draws)
  define i where "i = (r mod 81) div 9"
  define j where "j = (r mod 81) mod 9"
  have i: "i < 9" and j: "j < 9" unfolding i_def j_def by (rule cell_index)+
  from rd_grid_ex[OF Cons.prems(1) i j] obtain v where
    v: "v \<le> 9" "rd board i j = Inr (Some v)" by blast
  from Cons.prems(1) i have il: "i < length board" by (simp add: isGrid_iff)
  have g1: "isGrid (put board i j (Some 0))" by (rule isGrid_put[OF Cons.prems(1) i j]) simp
  from Cons.IH[OF g1] Cons.IH[OF Cons.prems(1)] v il show ?case
    by (simp add: Let_def i_def[symmetric] j_def[symmetric] wr_def)
qed

lemma zerosRow_le: "zerosRow row \<le> length row"
  by (simp add: zerosRow_def)

lemma zeros_le_81:
  assumes "isGrid board"
  shows "zeros board \<le> 81"
proof -
  have "\<forall>row\<in>set board. zerosRow row \<le> 9"
  proof
    fix row assume "row \<in> set board"
    with assms have "length row = 9" by (simp add: isGrid_def list_all_iff)
    with zerosRow_le[of row] show "zerosRow row \<le> 9" by simp
  qed
  then have "sum_list (map zerosRow board) \<le> sum_list (map (\<lambda>_. 9) board)"
    by (intro sum_list_mono) simp
  also have "\<dots> = 9 * length board" by (simp add: sum_list_triv)
  finally show ?thesis using assms by (simp add: zeros_def isGrid_def)
qed

lemma firstEmpty_None:
  "firstEmpty board ps = Inr None \<Longrightarrow> \<forall>(i, j)\<in>set ps. rd board i j \<noteq> Inr (Some 0)"
  by (induction board ps rule: firstEmpty.induct) (auto split: sum.splits if_splits)

lemma full_cells: "full board \<Longrightarrow> i < 9 \<Longrightarrow> j < 9 \<Longrightarrow> rd board i j \<noteq> Inr (Some 0)"
  using firstEmpty_None[of board allCells] by (auto simp: full_def allCells_set)

lemma full_zeros:
  assumes "isGrid board" and "full board"
  shows "zeros board = 0"
proof -
  have "zerosRow row = 0" if "row \<in> set board" for row
  proof -
    from that obtain i where i: "i < length board" "row = board ! i"
      by (auto simp: in_set_conv_nth)
    with assms(1) have i9: "i < 9" and l: "length row = 9" by (simp_all add: isGrid_iff)
    have "v \<noteq> Some 0" if "v \<in> set row" for v
    proof -
      from that l obtain j where j: "j < 9" "v = row ! j" by (auto simp: in_set_conv_nth)
      with full_cells[OF assms(2) i9 j(1)] rd_grid[OF assms(1) i9 j(1)] i show ?thesis by simp
    qed
    then show ?thesis by (auto simp: zerosRow_def filter_empty_conv)
  qed
  then show ?thesis by (simp add: zeros_def)
qed

lemma attemptsFor_value:
  "attemptsFor d = (if d = JStr ''Hard'' then 50 else if d = JStr ''Easy'' then 30 else 40)"
  by (simp add: attemptsFor_def)

lemma attemptsFor_ge: "30 \<le> attemptsFor d"
  by (simp add: attemptsFor_value)

lemma units_shape:
  "list_all (\<lambda>u. distinct u \<and> length u = 9 \<and>
       list_all (\<lambda>p. fst p < 9 \<and> snd p < 9 \<and> list_all (\<lambda>q. sameUnit p q) u) u) units"
  by code_simp

lemma unit_facts:
  assumes "u \<in> set units"
  shows "distinct u" and "length u = 9"
    and "\<And>p. p \<in> set u \<Longrightarrow> fst p < 9 \<and> snd p < 9"
    and "\<And>p q. p \<in> set u \<Longrightarrow> q \<in> set u \<Longrightarrow> sameUnit p q"
  using units_shape assms unfolding list_all_iff by blast+

lemma filter_le_one:
  "distinct xs \<Longrightarrow> (\<forall>x\<in>set xs. \<forall>y\<in>set xs. P x \<longrightarrow> P y \<longrightarrow> x = y) \<Longrightarrow>
   length (filter P xs) \<le> 1"
proof (induction xs)
  case Nil
  show ?case by simp
next
  case (Cons x xs)
  show ?case
  proof (cases "P x")
    case True
    with Cons.prems have "\<forall>y\<in>set xs. \<not> P y" by auto
    then have "filter P xs = []" by (simp add: filter_empty_conv)
    with True show ?thesis by simp
  next
    case False
    with Cons show ?thesis by simp
  qed
qed

lemma unit_clash:
  assumes cf: "conflictFree board" and u: "u \<in> set units"
    and p: "p \<in> set u" and q: "q \<in> set u" and d: "1 \<le> d"
    and hp: "rd board (fst p) (snd p) = Inr (Some d)"
    and hq: "rd board (fst q) (snd q) = Inr (Some d)"
  shows "p = q"
proof (rule ccontr)
  assume ne: "p \<noteq> q"
  from unit_facts(3)[OF u p] unit_facts(3)[OF u q] unit_facts(4)[OF u p q]
  have "fst p < 9" "snd p < 9" "fst q < 9" "snd q < 9" "sameUnit (fst p, snd p) (fst q, snd q)"
    by simp_all
  moreover from ne have "(fst p, snd p) \<noteq> (fst q, snd q)" by (simp add: prod_eq_iff)
  ultimately show False using cf d hp hq unfolding conflictFree_def by blast
qed

lemma occurrences_le_one:
  assumes "conflictFree board" and "u \<in> set units" and "1 \<le> d"
  shows "occurrences board u d \<le> 1"
  unfolding occurrences_def
proof (rule filter_le_one[OF unit_facts(1)[OF assms(2)]], intro ballI impI)
  fix x y assume "x \<in> set u" "y \<in> set u"
    and "case x of (i, j) \<Rightarrow> rd board i j = Inr (Some d)"
    and "case y of (i, j) \<Rightarrow> rd board i j = Inr (Some d)"
  then show "x = y"
    using unit_clash[OF assms(1,2) _ _ assms(3), of x y] by (simp add: case_prod_beta)
qed

lemma inv_consistent:
  assumes "okGrid board"
  shows "consistent board"
  unfolding consistent_def list_all_iff
proof (intro ballI)
  fix u d assume u: "u \<in> set units" and "d \<in> set [1..<10]"
  then have "1 \<le> d" by simp
  with assms u show "occurrences board u d \<le> 1"
    by (simp only: okGrid_def occurrences_le_one)
qed

lemma occurrences_ge_one:
  assumes g: "isGrid board" and cf: "conflictFree board" and f: "full board"
    and u: "u \<in> set units" and d: "1 \<le> d" "d \<le> 9"
  shows "1 \<le> occurrences board u d"
proof -
  define val where "val = (\<lambda>p. rd board (fst p) (snd p))"
  define digits where "digits = (\<lambda>v. (Inr (Some v) :: error + cell)) ` {1..9::nat}"
  have range: "val p \<in> digits" if "p \<in> set u" for p
  proof -
    from unit_facts(3)[OF u that] have b: "fst p < 9" "snd p < 9" by simp_all
    from rd_grid_ex[OF g b] obtain v where v: "v \<le> 9" "val p = Inr (Some v)"
      unfolding val_def by blast
    with full_cells[OF f b] have "v \<noteq> 0" unfolding val_def by auto
    with v show ?thesis unfolding digits_def by auto
  qed
  have "inj_on val (set u)"
  proof (rule inj_onI)
    fix p q assume p: "p \<in> set u" and q: "q \<in> set u" and e: "val p = val q"
    from range[OF p] obtain v where v: "1 \<le> v" "val p = Inr (Some v)"
      unfolding digits_def by auto
    from v(2) have hp: "rd board (fst p) (snd p) = Inr (Some v)" by (simp only: val_def)
    from v(2) e have "val q = Inr (Some v)" by simp
    then have hq: "rd board (fst q) (snd q) = Inr (Some v)" by (simp only: val_def)
    show "p = q" by (rule unit_clash[OF cf u p q v(1) hp hq])
  qed
  then have "card (val ` set u) = 9"
    using unit_facts(1,2)[OF u] by (simp add: card_image distinct_card)
  moreover have "card digits = 9"
  proof -
    have "inj_on (\<lambda>v. (Inr (Some v) :: error + cell)) {1..9::nat}" by (simp add: inj_on_def)
    then have "card digits = card {1..9::nat}" unfolding digits_def by (rule card_image)
    then show ?thesis by simp
  qed
  moreover have "val ` set u \<subseteq> digits" using range by auto
  moreover have "finite digits" unfolding digits_def by simp
  ultimately have "val ` set u = digits" by (simp add: card_subset_eq)
  with d have "Inr (Some d) \<in> val ` set u" unfolding digits_def by auto
  then obtain p where "p \<in> set u" "rd board (fst p) (snd p) = Inr (Some d)"
    unfolding val_def by auto
  then have "p \<in> set (filter (\<lambda>(i, j). rd board i j = Inr (Some d)) u)"
    by (simp add: case_prod_beta)
  then have "filter (\<lambda>(i, j). rd board i j = Inr (Some d)) u \<noteq> []"
    by (metis empty_iff list.set(1))
  then show ?thesis unfolding occurrences_def by (simp add: Suc_le_eq)
qed

lemma inv_full_solution:
  assumes "okGrid board" and "full board"
  shows "isSolution board"
proof -
  from assms(1) have g: "isGrid board" and cf: "conflictFree board" by (simp_all add: okGrid_def)
  have "occurrences board u d = 1" if "u \<in> set units" "d \<in> set [1..<10]" for u d
  proof -
    from that(2) have d: "1 \<le> d" "d \<le> 9" by simp_all
    from occurrences_le_one[OF cf that(1) d(1)] occurrences_ge_one[OF g cf assms(2) that(1) d]
    show ?thesis by simp
  qed
  moreover have "\<forall>(i, j)\<in>set allCells. rd board i j \<noteq> Inr (Some 0)"
    using full_cells[OF assms(2)] by (auto simp: allCells_set)
  ultimately show ?thesis
    unfolding isSolution_def list_all_iff using g by blast
qed

lemma fill_draws0: "fillDiagonal emptyBoard draws0 = Some (Inr (seed0, removal0))"
  by code_simp

lemma remove30: "removeDigits sol0 30 removal0 = Some (Inr (puzzle30, rest30))"
  by code_simp

lemma remove40: "removeDigits sol0 40 removal0 = Some (Inr (puzzle40, rest40))"
  by code_simp

lemma remove50: "removeDigits sol0 50 removal0 = Some (Inr (puzzle50, rest50))"
  by code_simp

lemma gen_eval:
  "generateNewGame d draws0 =
     Some (Inr \<lparr>initial = (if d = JStr ''Hard'' then puzzle50
                              else if d = JStr ''Easy'' then puzzle30 else puzzle40),
                solution = sol0\<rparr>)"
  unfolding generateNewGame_def
  by (simp add: fill_draws0 solve_seed0 attemptsFor_value remove30 remove40 remove50
        del: solveBoard.simps)

lemma rd_emptyBoard: "i < 9 \<Longrightarrow> j < 9 \<Longrightarrow> rd emptyBoard i j = Inr (Some 0)"
  by (simp add: rd_def emptyBoard_def)

lemma isGrid_emptyBoard: "isGrid emptyBoard"
  by code_simp

lemma zeros_emptyBoard: "zeros emptyBoard = 81"
  by code_simp

lemma seeding_emptyBoard: "seeding emptyBoard"
  unfolding seeding_def conflictFree_def offDiagEmpty_def
  by (simp add: isGrid_emptyBoard rd_emptyBoard)

lemma seeding_inv: "seeding board \<Longrightarrow> okGrid board"
  by (simp add: seeding_def okGrid_def)

lemma firstEmpty_no_error:
  "\<forall>(i, j)\<in>set ps. i < length board \<Longrightarrow> firstEmpty board ps \<noteq> Inl e"
  by (induction board ps rule: firstEmpty.induct) (auto simp: rd_def)

lemma solve_returns:
  "length board = 9 \<Longrightarrow> \<exists>res. solveBoard board = Inr res \<and> length (snd res) = 9"
  "length board = 9 \<Longrightarrow> i < 9 \<Longrightarrow>
     \<exists>res. tryNums board i j num = Inr res \<and> length (snd res) = 9"
proof (induction board and board i j num rule: solveBoard_tryNums.induct)
  case (1 board)
  have "\<forall>(i, j)\<in>set allCells. i < length board"
    using "1.prems" by (auto simp: allCells_set)
  then obtain r where r: "firstEmpty board allCells = Inr r"
    using firstEmpty_no_error[of allCells board] by (cases "firstEmpty board allCells") auto
  show ?case
  proof (cases r)
    case None
    with r "1.prems" show ?thesis by simp
  next
    case (Some p)
    obtain i j where p: "p = (i, j)" by (cases p)
    with r Some have fe: "firstEmpty board allCells = Inr (Some (i, j))" by simp
    then have "i < 9" using firstEmpty_range by blast
    from "1.IH"[OF r Some p[symmetric] "1.prems" this] fe show ?thesis by simp
  qed
next
  case (2 board i j num)
  note len = \<open>length board = 9\<close> and i = \<open>i < 9\<close>
  show ?case
  proof (cases "num \<le> 9")
    case False
    with len show ?thesis by simp
  next
    case le: True
    obtain valid where v: "isValid board i j num = Inr valid"
      using isValid_result[OF len i] by blast
    show ?thesis
    proof (cases valid)
      case False
      with "2.IH"(3)[OF le v _ len i] le v show ?thesis by simp
    next
      case True
      define board1 where "board1 = put board i j (Some num)"
      have w1: "wr board i j (Some num) = Inr board1"
        using len i by (simp add: wr_def board1_def)
      have len1: "length board1 = 9" using len by (simp add: board1_def)
      from "2.IH"(1)[OF le v True w1 len1] obtain solved board2 where
        s: "solveBoard board1 = Inr (solved, board2)" and len2: "length board2 = 9" by auto
      show ?thesis
      proof (cases solved)
        case True
        with le v \<open>valid\<close> w1 s len2 show ?thesis by simp
      next
        case False
        define board3 where "board3 = put board2 i j (Some 0)"
        have w2: "wr board2 i j (Some 0) = Inr board3"
          using len2 i by (simp add: wr_def board3_def)
        have len3: "length board3 = 9" using len2 by (simp add: board3_def)
        from "2.IH"(2)[OF le v \<open>valid\<close> w1 s refl _ w2 len3 i] False
        obtain res where "tryNums board3 i j (num + 1) = Inr res"
          and "length (snd res) = 9" by auto
        with le v \<open>valid\<close> w1 s False w2 show ?thesis by simp
      qed
    qed
  qed
qed

lemma generated_parts:
  assumes "generateNewGame d draws = Some (Inr g)"
  shows "\<exists>board1 draws1 draws2.
           fillDiagonal emptyBoard draws = Some (Inr (board1, draws1)) \<and>
           seeding board1 \<and>
           solveBoard board1 = Inr (True, solution g) \<and>
           okGrid (solution g) \<and> full (solution g) \<and>
           removeDigits (solution g) (attemptsFor d) draws1 = Some (Inr (initial g, draws2))"
proof -
  from assms obtain board1 draws1 solved board2 board3 draws2 where
    f: "fillDiagonal emptyBoard draws = Some (Inr (board1, draws1))"
    and s: "solveBoard board1 = Inr (solved, board2)"
    and r: "removeDigits board2 (attemptsFor d) draws1 = Some (Inr (board3, draws2))"
    and g: "g = \<lparr>initial = board3, solution = board2\<rparr>"
    unfolding generateNewGame_def
    by (auto simp del: solveBoard.simps split: option.splits sum.splits)
  from fillDiagonal_seeding[OF seeding_emptyBoard f]
  have sd: "seeding board1" and z1: "81 \<le> zeros board1 + 27"
    by (simp_all add: zeros_emptyBoard)
  from solve_inv(1)[OF seeding_inv[OF sd] s]
  have i2: "okGrid board2" and f2: "solved \<longrightarrow> full board2" by simp_all
  from i2 have g2: "isGrid board2" by (simp add: okGrid_def)
  from removeDigits_grid[OF g2 r]
  have g3: "isGrid board3" and z3: "zeros board3 = zeros board2 + attemptsFor d" by simp_all
  have solved
  proof (rule ccontr)
    assume "\<not> solved"
    with s have "board2 = board1" using solve_restore[of board1 board2] by simp
    with z1 z3 attemptsFor_ge[of d] have "84 \<le> zeros board3" by simp
    with zeros_le_81[OF g3] show False by simp
  qed
  with f sd s i2 f2 r g show ?thesis by simp
qed

lemma generateNewGame_attempts:
  assumes "attemptsFor d = attemptsFor d'"
  shows "generateNewGame d draws = generateNewGame d' draws"
  unfolding generateNewGame_def assms by (rule refl)

lemma generateNewGame_no_throw: "generateNewGame d draws \<noteq> Some (Inl e)"
proof
  assume err: "generateNewGame d draws = Some (Inl e)"
  have l0: "length emptyBoard = 9" by (simp add: emptyBoard_def)
  from fillDiagonal_no_error[OF l0] err obtain board1 draws1 where
    f: "fillDiagonal emptyBoard draws = Some (Inr (board1, draws1))"
    unfolding generateNewGame_def by (auto split: option.splits sum.splits)
  from fillDiagonal_seeding[OF seeding_emptyBoard f] have sd: "seeding board1" by simp
  then have "length board1 = 9" by (simp add: seeding_def isGrid_iff)
  from solve_returns(1)[OF this] obtain solved board2 where
    s: "solveBoard board1 = Inr (solved, board2)" by auto
  from solve_inv(1)[OF seeding_inv[OF sd] s] have "isGrid board2" by (simp add: okGrid_def)
  from removeDigits_no_error[OF this, of "attemptsFor d" draws1 e] err f s
  show False
    unfolding generateNewGame_def
    by (auto simp del: solveBoard.simps split: option.splits sum.splits)
qed


section \<open>Depth of the recursion\<close>

lemma zeros_place_one:
  assumes "rd board i j = Inr (Some 0)" and "1 \<le> num"
  shows "zeros board = Suc (zeros (put board i j (Some num)))"
proof -
  from assms(2) obtain n where n: "num = Suc n" by (cases num) auto
  from assms(1) have i: "i < length board" using rd_in_range by blast
  from assms(1) have "put board i j (Some 0) = board" by (simp add: rd_put_same)
  with zeros_put[OF i, of j n] n show ?thesis by simp
qed

lemma depth_enough:
  "zeros board \<le> depth \<Longrightarrow> solveBoardD depth board = Some (solveBoard board)"
  "rd board i j = Inr (Some 0) \<Longrightarrow> 1 \<le> num \<Longrightarrow> zeros board \<le> depth \<Longrightarrow>
     tryNumsD depth board i j num = Some (tryNums board i j num)"
proof (induction board and board i j num arbitrary: depth and depth
    rule: solveBoard_tryNums.induct)
  case (1 board)
  show ?case
  proof (cases "firstEmpty board allCells")
    case (Inl e)
    then show ?thesis by simp
  next
    case (Inr r)
    show ?thesis
    proof (cases r)
      case None
      with Inr show ?thesis by simp
    next
      case (Some p)
      obtain i j where p: "p = (i, j)" by (cases p)
      with Inr Some have fe: "firstEmpty board allCells = Inr (Some (i, j))" by simp
      then have z: "rd board i j = Inr (Some 0)" by (simp add: firstEmpty_Some)
      from "1.IH"[OF Inr Some p[symmetric] z _ "1.prems"] fe show ?thesis by simp
    qed
  qed
next
  case (2 board i j num)
  note z = \<open>rd board i j = Inr (Some 0)\<close> and n = \<open>1 \<le> num\<close> and d = \<open>zeros board \<le> depth\<close>
  show ?case
  proof (cases "num \<le> 9")
    case False
    then show ?thesis by simp
  next
    case le: True
    show ?thesis
    proof (cases "isValid board i j num")
      case (Inl e)
      with le show ?thesis by simp
    next
      case (Inr valid)
      show ?thesis
      proof (cases valid)
        case False
        from "2.IH"(3)[OF le Inr False z _ d] le Inr False show ?thesis by simp
      next
        case True
        from z have i: "i < length board" using rd_in_range by blast
        define board1 where "board1 = put board i j (Some num)"
        have w1: "wr board i j (Some num) = Inr board1" using i by (simp add: wr_def board1_def)
        from zeros_place_one[OF z n] have z1: "zeros board = Suc (zeros board1)"
          by (simp add: board1_def)
        with d obtain below where b: "depth = Suc below" "zeros board1 \<le> below"
          by (cases depth) auto
        from "2.IH"(1)[OF le Inr True w1 b(2)]
        have s: "solveBoardD below board1 = Some (solveBoard board1)" .
        show ?thesis
        proof (cases "solveBoard board1")
          case (Inl e)
          with le \<open>isValid board i j num = Inr valid\<close> True w1 b s show ?thesis by simp
        next
          case r: (Inr res)
          obtain solved board2 where res: "res = (solved, board2)" by (cases res)
          show ?thesis
          proof (cases solved)
            case True
            with le \<open>isValid board i j num = Inr valid\<close> \<open>valid\<close> w1 b s r res
            show ?thesis by simp
          next
            case False
            with r res have sb: "solveBoard board1 = Inr (False, board2)" by simp
            then have b2: "board2 = board1" by (rule solve_restore)
            define board3 where "board3 = put board2 i j (Some 0)"
            have "length board2 = length board" using b2 by (simp add: board1_def)
            with i have w2: "wr board2 i j (Some 0) = Inr board3"
              by (simp add: wr_def board3_def)
            have b3: "board3 = board"
              unfolding board3_def b2 board1_def using z by (simp add: put_put rd_put_same)
            from "2.IH"(2)[OF le Inr \<open>valid\<close> w1 sb refl _ w2, of depth] b3 z d
            have "tryNumsD depth board3 i j (num + 1) = Some (tryNums board3 i j (num + 1))"
              by simp
            with le \<open>isValid board i j num = Inr valid\<close> \<open>valid\<close> w1 b s sb False w2
            show ?thesis by simp
          qed
        qed
      qed
    qed
  qed
qed


section \<open>The boards passed through\<close>

lemma fillVisits_seeding:
  assumes "fillVisits board r0 c0 offs draws s"
  shows "seeding board \<Longrightarrow> c0 = r0 \<Longrightarrow> r0 mod 3 = 0 \<Longrightarrow> r0 + 2 < 9 \<Longrightarrow>
     \<forall>(a, b)\<in>set offs. a < 3 \<and> b < 3 \<Longrightarrow> seeding s"
  using assms
proof (induction rule: fillVisits.induct)
  case (fv_assign board row col draws num draws1 i j board1 offs)
  from fv_assign.prems(5) have a: "i < 3" and b: "j < 3" by simp_all
  from drawSafe_Inr[OF fv_assign.hyps(1)] fv_assign.prems(2)
  have n: "1 \<le> num" "num \<le> 9" and safe: "isSafeInBox board row row num = Inr True"
    by simp_all
  have i: "row + i < 9" and j: "row + j < 9" using a b fv_assign.prems(4) by simp_all
  from fv_assign.hyps(2) fv_assign.prems(2)
  have "board1 = put board (row + i) (row + j) (Some num)" by (simp add: wr_Inr)
  then show ?case
    using seeding_step[OF fv_assign.prems(1,3) a b i j n safe] by simp
next
  case (fv_rest board row col draws num draws1 i j board1 offs s)
  from fv_rest.prems(5) have a: "i < 3" and b: "j < 3"
    and rest: "\<forall>(a, b)\<in>set offs. a < 3 \<and> b < 3" by simp_all
  from drawSafe_Inr[OF fv_rest.hyps(1)] fv_rest.prems(2)
  have n: "1 \<le> num" "num \<le> 9" and safe: "isSafeInBox board row row num = Inr True"
    by simp_all
  have i: "row + i < 9" and j: "row + j < 9" using a b fv_rest.prems(4) by simp_all
  from fv_rest.hyps(2) fv_rest.prems(2)
  have "board1 = put board (row + i) (row + j) (Some num)" by (simp add: wr_Inr)
  then have "seeding board1"
    using seeding_step[OF fv_rest.prems(1,3) a b i j n safe] by simp
  from fv_rest.IH[OF this fv_rest.prems(2,3,4) rest] show ?case .
qed

lemma diagVisits_seeding:
  assumes "diagVisits i board draws s"
  shows "seeding board \<Longrightarrow> i mod 3 = 0 \<Longrightarrow> seeding s"
  using assms
proof (induction rule: diagVisits.induct)
  case (dv_box i board draws s)
  from dv_box.hyps(1) dv_box.prems(2) have "i + 2 < 9" by presburger
  from fillVisits_seeding[OF dv_box.hyps(2) dv_box.prems(1) refl dv_box.prems(2) this
      boxOffsets_bound]
  show ?case .
next
  case (dv_next i board draws board1 draws1 s)
  from dv_next.hyps(1) dv_next.prems(2) have "i + 2 < 9" by presburger
  from fillBox_seeding[OF dv_next.prems(1,2) this dv_next.hyps(2)] have "seeding board1" by simp
  moreover from dv_next.prems(2) have "(i + 3) mod 3 = 0" by simp
  ultimately show ?case by (rule dv_next.IH)
qed

lemma solveVisits_inv:
  "solveVisits board s \<Longrightarrow> okGrid board \<Longrightarrow> okGrid s"
  "tryVisits board i j num s \<Longrightarrow> okGrid board \<Longrightarrow> i < 9 \<Longrightarrow> j < 9 \<Longrightarrow> okGrid s"
proof (induction rule: solveVisits_tryVisits.inducts)
  case (sv_loop board i j s)
  from firstEmpty_range[OF sv_loop.hyps(1)] sv_loop.IH sv_loop.prems show ?case by simp
next
  case (tv_skip num board i j s)
  then show ?case by simp
next
  case (tv_place num board i j board1)
  from tv_place.hyps(3) have "board1 = put board i j (Some num)" by (simp add: wr_Inr)
  with inv_place[OF tv_place.prems tv_place.hyps(1,2)] show ?case by simp
next
  case (tv_call num board i j board1 s)
  from tv_call.hyps(3) have "board1 = put board i j (Some num)" by (simp add: wr_Inr)
  with inv_place[OF tv_call.prems tv_call.hyps(1,2)] have "okGrid board1" by simp
  then show ?case by (rule tv_call.IH)
next
  case (tv_undo num board i j board1 board2 board3)
  from tv_undo.hyps(3) have "board1 = put board i j (Some num)" by (simp add: wr_Inr)
  with inv_place[OF tv_undo.prems tv_undo.hyps(1,2)] have "okGrid board1" by simp
  from solve_inv(1)[OF this tv_undo.hyps(4)] have i2: "okGrid board2" by simp
  from tv_undo.hyps(5) have "board3 = put board2 i j (Some 0)" by (simp add: wr_Inr)
  with inv_clear[OF i2 tv_undo.prems(2,3)] show ?case by simp
next
  case (tv_next num board i j board1 board2 board3 s)
  from tv_next.hyps(3) have "board1 = put board i j (Some num)" by (simp add: wr_Inr)
  with inv_place[OF tv_next.prems tv_next.hyps(1,2)] have "okGrid board1" by simp
  from solve_inv(1)[OF this tv_next.hyps(4)] have i2: "okGrid board2" by simp
  from tv_next.hyps(5) have "board3 = put board2 i j (Some 0)" by (simp add: wr_Inr)
  with inv_clear[OF i2 tv_next.prems(2,3)] have "okGrid board3" by simp
  from tv_next.IH[OF this tv_next.prems(2,3)] show ?case .
qed

lemma generationVisits_inv: "generationVisits draws s \<Longrightarrow> okGrid s"
proof (induction rule: generationVisits.induct)
  case (gv_reset draws)
  show ?case by (rule seeding_inv[OF seeding_emptyBoard])
next
  case (gv_seed draws s)
  from diagVisits_seeding[OF gv_seed seeding_emptyBoard] show ?case by (simp add: seeding_inv)
next
  case (gv_solve draws board1 draws1 s)
  from fillDiagonal_seeding[OF seeding_emptyBoard gv_solve(1)] have "okGrid board1"
    by (simp add: seeding_inv)
  with solveVisits_inv(1)[OF gv_solve(2)] show ?case .
qed


section \<open>Arrays on the heap\<close>

lemma rowsAt_Some: "rowsAt h a = Some rs \<longleftrightarrow> a < length h \<and> h ! a = Rows rs"
  by (auto simp: rowsAt_def split: obj.splits)

lemma cellsAt_Some: "cellsAt h a = Some cs \<longleftrightarrow> a < length h \<and> h ! a = Cells cs"
  by (auto simp: cellsAt_def split: obj.splits)

lemma store_length [simp]: "length (store h rs g) = length h"
  by (induction h rs g rule: store.induct) simp_all

lemma store_other: "a \<notin> set rs \<Longrightarrow> store h rs g ! a = h ! a"
  by (induction h rs g rule: store.induct) (simp_all add: nth_list_update)

lemma store_at:
  "distinct rs \<Longrightarrow> length g = length rs \<Longrightarrow> k < length rs \<Longrightarrow> rs ! k < length h \<Longrightarrow>
   store h rs g ! (rs ! k) = Cells (g ! k)"
proof (induction h rs g arbitrary: k rule: store.induct)
  case (1 h r rs row g)
  show ?case
  proof (cases k)
    case 0
    with "1.prems" have "r \<notin> set rs" "r < length h" by simp_all
    with 0 show ?thesis by (simp add: store_other)
  next
    case (Suc m)
    with "1.prems" "1.IH"[of m] show ?thesis by simp
  qed
qed simp_all

lemma load_layout:
  assumes "layout h b rs g"
  shows "load h b = Some g"
proof -
  from assms have r: "rowsAt h b = Some rs" and l: "length g = length rs"
    and c: "\<forall>k<length rs. cellsAt h (rs ! k) = Some (g ! k)"
    by (simp_all add: layout_def)
  from c have "list_all (\<lambda>r. cellsAt h r \<noteq> None) rs"
    by (simp add: list_all_length)
  moreover from c l have "map (\<lambda>r. the (cellsAt h r)) rs = g"
    by (intro nth_equalityI) simp_all
  ultimately show ?thesis using r by (simp add: load_def)
qed

lemma layout_store:
  assumes "layout h b rs g" and "length g' = length rs"
  shows "layout (store h rs g') b rs g'"
proof -
  from assms(1) have r: "rowsAt h b = Some rs" and d: "distinct rs" and n: "b \<notin> set rs"
    and lt: "\<forall>r\<in>set rs. r < length h"
    by (simp_all add: layout_def)
  from r n have "rowsAt (store h rs g') b = Some rs"
    by (simp add: rowsAt_Some store_other)
  moreover have "cellsAt (store h rs g') (rs ! k) = Some (g' ! k)" if "k < length rs" for k
    using store_at[OF d assms(2) that] lt that by (simp add: cellsAt_Some)
  ultimately show ?thesis using d n lt assms(2) by (simp add: layout_def)
qed

lemma layout_store_other:
  assumes "layout h s rss gs" and "s \<notin> set rs" and "set rs \<inter> set rss = {}"
  shows "layout (store h rs g') s rss gs"
proof -
  from assms(1) have r: "rowsAt h s = Some rss"
    and c: "\<forall>k<length rss. cellsAt h (rss ! k) = Some (gs ! k)"
    by (simp_all add: layout_def)
  from r assms(2) have "rowsAt (store h rs g') s = Some rss"
    by (simp add: rowsAt_Some store_other)
  moreover have "cellsAt (store h rs g') (rss ! k) = Some (gs ! k)" if "k < length rss" for k
  proof -
    from that assms(3) have "rss ! k \<notin> set rs" by (meson disjoint_iff nth_mem)
    with c that show ?thesis by (simp add: cellsAt_Some store_other)
  qed
  ultimately show ?thesis using assms(1) by (simp add: layout_def)
qed

lemma store_old:
  assumes "\<forall>r\<in>set rs. n \<le> r"
  shows "take n (store h rs g) = take n h"
proof (rule nth_equalityI)
  show "length (take n (store h rs g)) = length (take n h)" by simp
next
  fix k assume "k < length (take n (store h rs g))"
  then have k: "k < n" by simp
  with assms have "k \<notin> set rs" by auto
  with k show "take n (store h rs g) ! k = take n h ! k" by (simp add: store_other)
qed

lemma layout_append:
  assumes "layout h b rs g"
  shows "layout (h @ ext) b rs g"
proof -
  from assms have r: "rowsAt h b = Some rs"
    and c: "\<forall>k<length rs. cellsAt h (rs ! k) = Some (g ! k)"
    and lt: "\<forall>r\<in>set rs. r < length h"
    by (simp_all add: layout_def)
  from r have "rowsAt (h @ ext) b = Some rs" by (simp add: rowsAt_Some nth_append)
  moreover have "cellsAt (h @ ext) (rs ! k) = Some (g ! k)" if "k < length rs" for k
  proof -
    from c that have "rs ! k < length h" "h ! (rs ! k) = Cells (g ! k)"
      by (simp_all add: cellsAt_Some)
    then show ?thesis by (simp add: cellsAt_Some nth_append)
  qed
  moreover have "\<forall>r\<in>set rs. r < length (h @ ext)" using lt by auto
  ultimately show ?thesis using assms by (simp add: layout_def)
qed

lemma layout_fresh:
  "layout (h @ [Rows (map (\<lambda>k. length h + 1 + k) [0..<length g])] @ map Cells g)
     (length h) (map (\<lambda>k. length h + 1 + k) [0..<length g]) g"
proof -
  let ?n = "length h"
  let ?rs = "map (\<lambda>k. ?n + 1 + k) [0..<length g]"
  let ?h = "h @ [Rows ?rs] @ map Cells g"
  have "rowsAt ?h ?n = Some ?rs" by (simp add: rowsAt_Some)
  moreover have "cellsAt ?h (?rs ! k) = Some (g ! k)" if "k < length ?rs" for k
  proof -
    from that have k: "k < length g" by simp
    then have "?rs ! k = ?n + 1 + k" by simp
    moreover have "?h ! (?n + 1 + k) = Cells (g ! k)"
      using k by (simp add: nth_append)
    ultimately show ?thesis using k by (simp add: cellsAt_Some)
  qed
  moreover have "\<forall>r\<in>set ?rs. r < length ?h" by auto
  moreover have "distinct ?rs" by (simp add: distinct_map inj_on_def)
  moreover have "?n \<notin> set ?rs" by auto
  ultimately show ?thesis by (simp add: layout_def)
qed

lemma onBoard_layout:
  assumes "layout h b rs g" and "onBoard h b f = Some (Inr (h', x))"
  shows "\<exists>g'. f g = Some (Inr (g', x)) \<and> h' = store h rs g'"
proof -
  from assms(1) have "rowsAt h b = Some rs" by (simp add: layout_def)
  moreover from assms(1) have "load h b = Some g" by (rule load_layout)
  ultimately show ?thesis
    using assms(2) unfolding onBoard_def by (auto split: option.splits sum.splits)
qed

lemma solve_length:
  assumes "length board = 9" and "solveBoard board = Inr (ok, board')"
  shows "length board' = 9"
  using solve_returns(1)[OF assms(1)] assms(2) by auto

lemma setCell_separate:
  assumes p: "layout h p rsp gp" and s: "layout h s rss gs"
    and n: "s \<notin> set rsp" and d: "set rsp \<inter> set rss = {}"
    and w: "setCell h p i j v = Inr h''"
  shows "load h'' s = load h s"
proof -
  from p have rp: "rowsAt h p = Some rsp" by (simp add: layout_def)
  with w obtain cs where i: "i < length rsp" and h'': "h'' = h[rsp ! i := Cells (putRow cs j v)]"
    unfolding setCell_def by (auto split: option.splits if_splits)
  from i n have ne: "rsp ! i \<noteq> s" by (metis nth_mem)
  from s have rs: "rowsAt h s = Some rss"
    and c: "\<forall>k<length rss. cellsAt h (rss ! k) = Some (gs ! k)"
    by (simp_all add: layout_def)
  from rs ne have "rowsAt h'' s = Some rss" by (simp add: rowsAt_Some h'')
  moreover have "cellsAt h'' (rss ! k) = Some (gs ! k)" if "k < length rss" for k
  proof -
    from that i d have "rss ! k \<noteq> rsp ! i" by (metis disjoint_iff nth_mem)
    with c that show ?thesis by (simp add: cellsAt_Some h'')
  qed
  moreover have "\<forall>r\<in>set rss. r < length h''" using s by (simp add: layout_def h'')
  ultimately have "layout h'' s rss gs" using s by (simp add: layout_def)
  then show ?thesis using load_layout s by simp
qed

lemma generateNewGameH_layout:
  assumes "generateNewGameH d draws (h, this) = Some (Inr (h', this', r))"
  shows "\<exists>g rsp rss.
           generateNewGame d draws = Some (Inr g) \<and>
           layout h' (initialAt r) rsp (initial g) \<and>
           layout h' (solutionAt r) rss (solution g) \<and>
           initialAt r \<notin> set rss \<and> solutionAt r \<notin> set rsp \<and> set rsp \<inter> set rss = {} \<and>
           initialAt r = boardRef this' \<and> solutionRef this' = Some (solutionAt r) \<and>
           take (length h) h' = h"
proof -
  define n where "n = length h"
  define rsb where "rsb = map (\<lambda>k. n + 1 + k) [0..<9]"
  define h1 where "h1 = h @ [Rows rsb] @ replicate 9 (Cells (replicate 9 (Some 0)))"
  have nb: "newBoard h = (n, h1)" by (simp add: newBoard_def n_def rsb_def h1_def Let_def)
  have l1: "layout h1 n rsb emptyBoard"
    using layout_fresh[of h emptyBoard]
    by (simp add: h1_def rsb_def n_def emptyBoard_def)
  from assms nb obtain h2 draws1 h3 solved s h4 h5 draws2 where
    o1: "onBoard h1 n (\<lambda>board. fillDiagonal board draws) = Some (Inr (h2, draws1))"
    and o2: "onBoard h2 n (\<lambda>board. case solveBoard board of
                                Inl e \<Rightarrow> Some (Inl e)
                              | Inr (solved, board') \<Rightarrow> Some (Inr (board', solved)))
               = Some (Inr (h3, solved))"
    and cp: "copyBoard h3 n = Inr (s, h4)"
    and o3: "onBoard h4 n (\<lambda>board. removeDigits board (attemptsFor d) draws1)
               = Some (Inr (h5, draws2))"
    and res: "h' = h5" "this' = this\<lparr>boardRef := n, solutionRef := Some s\<rparr>"
      "r = \<lparr>initialAt = n, solutionAt = s\<rparr>"
    unfolding generateNewGameH_def
    by (auto simp: Let_def split: option.splits sum.splits prod.splits)
  from onBoard_layout[OF l1 o1] obtain board1 where
    f: "fillDiagonal emptyBoard draws = Some (Inr (board1, draws1))"
    and h2: "h2 = store h1 rsb board1" by blast
  from fillDiagonal_seeding[OF seeding_emptyBoard f] have sd: "seeding board1" by simp
  then have len1: "length board1 = 9" by (simp add: seeding_def isGrid_iff)
  have lr: "length rsb = 9" by (simp add: rsb_def)
  from layout_store[OF l1, of board1] len1 lr have l2: "layout h2 n rsb board1"
    by (simp add: h2)
  from onBoard_layout[OF l2 o2] obtain board2 where
    sv: "solveBoard board1 = Inr (solved, board2)" and h3: "h3 = store h2 rsb board2"
    by (auto simp del: solveBoard.simps split: sum.splits)
  from solve_inv(1)[OF seeding_inv[OF sd] sv] have g2: "isGrid board2" by (simp add: okGrid_def)
  then have len2: "length board2 = 9" by (simp add: isGrid_iff)
  from layout_store[OF l2, of board2] len2 lr have l3: "layout h3 n rsb board2"
    by (simp add: h3)
  have lh3: "length h3 = n + 10" by (simp add: h3 h2 h1_def n_def lr)
  define rss where "rss = map (\<lambda>k. length h3 + 1 + k) [0..<length board2]"
  from cp load_layout[OF l3]
  have s3: "s = length h3" and h4: "h4 = h3 @ [Rows rss] @ map Cells board2"
    by (auto simp: copyBoard_def Let_def rss_def)
  have l4b: "layout h4 n rsb board2" unfolding h4 by (rule layout_append[OF l3])
  have l4s: "layout h4 s rss board2"
    unfolding h4 s3 rss_def by (rule layout_fresh)
  have s: "s = n + 10" using s3 lh3 by simp
  have rss: "rss = map (\<lambda>k. n + 11 + k) [0..<9]" by (simp add: rss_def lh3 len2)
  from onBoard_layout[OF l4b o3] obtain board3 where
    rm: "removeDigits board2 (attemptsFor d) draws1 = Some (Inr (board3, draws2))"
    and h5: "h5 = store h4 rsb board3" by blast
  from removeDigits_grid[OF g2 rm] have "isGrid board3" by simp
  then have len3: "length board3 = 9" by (simp add: isGrid_iff)
  from layout_store[OF l4b, of board3] len3 lr have l5b: "layout h5 n rsb board3"
    by (simp add: h5)
  have sep: "s \<notin> set rsb" "n \<notin> set rss" "set rsb \<inter> set rss = {}"
    unfolding s rsb_def rss by auto
  from layout_store_other[OF l4s sep(1,3)] have l5s: "layout h5 s rss board2"
    by (simp add: h5)
  have old: "take (length h) h5 = h"
  proof -
    have "\<forall>r\<in>set rsb. n \<le> r" by (auto simp: rsb_def)
    then have "take n h5 = take n h1"
      by (simp add: h5 h4 h3 h2 store_old lh3[unfolded h3 h2, simplified])
    then show ?thesis by (simp add: h1_def n_def)
  qed
  have "generateNewGame d draws = Some (Inr \<lparr>initial = board3, solution = board2\<rparr>)"
    unfolding generateNewGame_def using f sv rm by (simp del: solveBoard.simps)
  with l5b l5s sep old res show ?thesis by auto
qed

lemma run1: "generateNewGameH JUndefined draws0 state0 = Some (Inr (heap1, this1, refs1))"
  by code_simp

lemma write1: "setCell heap1 (initialAt refs1) 0 1 (Some 7) = Inr heap1w"
  by code_simp

lemma solveVisits_frame:
  "solveVisits board s \<Longrightarrow> frame board s"
  "tryVisits board i j num s \<Longrightarrow> rd board i j = Inr (Some 0) \<Longrightarrow> frame board s"
proof (induction rule: solveVisits_tryVisits.inducts)
  case (sv_loop board i j s)
  from firstEmpty_Some[OF sv_loop.hyps(1)] sv_loop.IH show ?case by simp
next
  case (tv_skip num board i j s)
  then show ?case by simp
next
  case (tv_place num board i j board1)
  from tv_place.hyps(3) have "board1 = put board i j (Some num)" by (simp add: wr_Inr)
  with frame_put[OF tv_place.prems] show ?case by simp
next
  case (tv_call num board i j board1 s)
  from tv_call.hyps(3) have "board1 = put board i j (Some num)" by (simp add: wr_Inr)
  with frame_put[OF tv_call.prems] have "frame board board1" by simp
  with tv_call.IH show ?case using frame_trans by blast
next
  case (tv_undo num board i j board1 board2 board3)
  from tv_undo.hyps(4) have "board2 = board1" by (rule solve_restore)
  with tv_undo.hyps(3,5) have "board3 = put board i j (Some 0)" by (simp add: wr_Inr put_put)
  with tv_undo.prems have "board3 = board" by (simp add: rd_put_same)
  then show ?case by (simp add: frame_refl)
next
  case (tv_next num board i j board1 board2 board3 s)
  from tv_next.hyps(4) have "board2 = board1" by (rule solve_restore)
  with tv_next.hyps(3,5) have "board3 = put board i j (Some 0)" by (simp add: wr_Inr put_put)
  with tv_next.prems have "board3 = board" by (simp add: rd_put_same)
  with tv_next.IH tv_next.prems show ?case by simp
qed

lemma visit_firstPlaced: "solveVisits seed0 firstPlaced"
proof -
  have fe: "firstEmpty seed0 allCells = Inr (Some (0, 3))" by code_simp
  have v: "isValid seed0 0 3 1 = Inr True" by code_simp
  have w: "wr seed0 0 3 (Some 1) = Inr firstPlaced" by code_simp
  have "tryVisits seed0 0 3 1 firstPlaced" by (rule tv_place[OF _ v w]) simp
  with fe show ?thesis by (rule sv_loop)
qed


section \<open>Draws that are not used\<close>

lemma drawSafe_more:
  "drawSafe board row col draws = Some (Inr (num, rest)) \<Longrightarrow>
   drawSafe board row col (draws @ extra) = Some (Inr (num, rest @ extra))"
  by (induction draws) (auto simp: Let_def split: sum.splits if_splits)

lemma fillCells_more:
  "fillCells board row col offs draws = Some (Inr (board', rest)) \<Longrightarrow>
   fillCells board row col offs (draws @ extra) = Some (Inr (board', rest @ extra))"
proof (induction offs arbitrary: board draws)
  case Nil
  then show ?case by simp
next
  case (Cons p offs)
  obtain a b where p: "p = (a, b)" by (cases p)
  from Cons.prems p obtain num draws1 board1 where
    d: "drawSafe board row col draws = Some (Inr (num, draws1))"
    and w: "wr board (row + a) (col + b) (Some num) = Inr board1"
    and f: "fillCells board1 row col offs draws1 = Some (Inr (board', rest))"
    by (auto split: option.splits sum.splits)
  from drawSafe_more[OF d, of extra] w Cons.IH[OF f] p show ?case by simp
qed

lemma fillDiagonal_more:
  assumes "fillDiagonal board draws = Some (Inr (board', rest))"
  shows "fillDiagonal board (draws @ extra) = Some (Inr (board', rest @ extra))"
proof -
  from assms obtain board1 draws1 board2 draws2 where
    b1: "fillBox board 0 0 draws = Some (Inr (board1, draws1))"
    and b2: "fillBox board1 3 3 draws1 = Some (Inr (board2, draws2))"
    and b3: "fillBox board2 6 6 draws2 = Some (Inr (board', rest))"
    unfolding fillDiagonal_unfold by (auto split: option.splits sum.splits)
  from b1 b2 b3 show ?thesis
    unfolding fillDiagonal_unfold fillBox_def
    by (simp add: fillCells_more)
qed

lemma removeDigits_zero: "removeDigits board 0 draws = Some (Inr (board, draws))"
  by (cases draws) simp_all

lemma removeDigits_more:
  "removeDigits board count draws = Some (Inr (board', rest)) \<Longrightarrow>
   removeDigits board count (draws @ extra) = Some (Inr (board', rest @ extra))"
proof (induction draws arbitrary: board count)
  case Nil
  then show ?case by (simp add: removeDigits_zero split: if_splits)
next
  case (Cons r draws)
  show ?case
  proof (cases "count > 0")
    case False
    with Cons.prems show ?thesis by (simp add: removeDigits_zero)
  next
    case True
    with Cons.prems Cons.IH show ?thesis
      by (auto simp: Let_def split: sum.splits if_splits)
  qed
qed

lemma generateNewGame_more:
  assumes "generateNewGame d draws = Some (Inr g)"
  shows "generateNewGame d (draws @ extra) = Some (Inr g)"
proof -
  from assms obtain board1 draws1 solved board2 board3 draws2 where
    f: "fillDiagonal emptyBoard draws = Some (Inr (board1, draws1))"
    and s: "solveBoard board1 = Inr (solved, board2)"
    and r: "removeDigits board2 (attemptsFor d) draws1 = Some (Inr (board3, draws2))"
    and g: "g = \<lparr>initial = board3, solution = board2\<rparr>"
    unfolding generateNewGame_def
    by (auto simp del: solveBoard.simps split: option.splits sum.splits)
  from fillDiagonal_more[OF f, of extra] s removeDigits_more[OF r, of extra] g
  show ?thesis
    unfolding generateNewGame_def by (simp del: solveBoard.simps)
qed


section \<open>The search finds a completion when there is one\<close>

lemma scanned_peers:
  assumes "i < 9" and "j < 9" and "(r, c) \<in> set (scanned i j)"
  shows "r < 9 \<and> c < 9 \<and> sameUnit (i, j) (r, c)"
proof -
  from assms(3) consider "(r, c) \<in> set (rowCells i)" | "(r, c) \<in> set (colCells j)"
    | "(r, c) \<in> set (boxCells (i - i mod 3) (j - j mod 3))"
    by (auto simp: scanned_def)
  then show ?thesis
  proof cases
    case 1
    with assms(1) show ?thesis by (auto simp: rowCells_set sameUnit_def)
  next
    case 2
    with assms(2) show ?thesis by (auto simp: colCells_set sameUnit_def)
  next
    case 3
    then obtain a b where a: "a < 3" and b: "b < 3"
      and r: "r = a + (i - i mod 3)" and c: "c = b + (j - j mod 3)"
      by (auto simp: boxCells_set)
    have "i mod 3 \<le> i" "j mod 3 \<le> j" by (rule mod_less_eq_dividend)+
    then have r': "r = a + i - i mod 3" and c': "c = b + j - j mod 3" using r c by simp_all
    from box_bound[OF assms(1) a] box_bound[OF assms(2) b] r' c'
    have "r < 9" "c < 9" by simp_all
    moreover from box_div[OF a, of i] box_div[OF b, of j] r c
    have "r div 3 = i div 3" "c div 3 = j div 3" by simp_all
    ultimately show ?thesis by (simp add: sameUnit_def)
  qed
qed

lemma completion_valid:
  assumes g: "isGrid board" and fr: "frame board c" and cf: "conflictFree c"
    and i: "i < 9" and j: "j < 9" and z: "rd board i j = Inr (Some 0)"
    and k: "rd c i j = Inr (Some k)" and k1: "1 \<le> k"
  shows "isValid board i j k = Inr True"
proof -
  from g have len: "length board = 9" by (simp add: isGrid_iff)
  have "rd board r s \<noteq> Inr (Some k)" if m: "(r, s) \<in> set (scanned i j)" for r s
  proof
    assume h: "rd board r s = Inr (Some k)"
    from scanned_peers[OF i j m] have r: "r < 9" and s: "s < 9"
      and su: "sameUnit (i, j) (r, s)" by simp_all
    from h z k1 have ne: "(i, j) \<noteq> (r, s)" by auto
    from fr h k1 have "rd c r s = Inr (Some k)" unfolding frame_def by auto
    with cf i j r s k1 ne su k show False unfolding conflictFree_def by blast
  qed
  then show ?thesis by (auto simp: isValid_result[OF len i])
qed

lemma frame_place:
  assumes g: "isGrid board" and fr: "frame board c" and i: "i < 9" and j: "j < 9"
    and k: "rd c i j = Inr (Some k)"
  shows "frame (put board i j (Some k)) c"
  using fr k unfolding frame_def by (auto simp: rd_put_grid[OF g i j] split: if_splits)

lemma solve_complete:
  "okGrid board \<Longrightarrow> frame board c \<Longrightarrow> okGrid c \<Longrightarrow> full c \<Longrightarrow>
     \<exists>board'. solveBoard board = Inr (True, board')"
  "okGrid board \<Longrightarrow> frame board c \<Longrightarrow> okGrid c \<Longrightarrow> full c \<Longrightarrow> i < 9 \<Longrightarrow> j < 9 \<Longrightarrow>
     rd board i j = Inr (Some 0) \<Longrightarrow> rd c i j = Inr (Some k) \<Longrightarrow> num \<le> k \<Longrightarrow>
     \<exists>board'. tryNums board i j num = Inr (True, board')"
proof (induction board and board i j num arbitrary: and k rule: solveBoard_tryNums.induct)
  case (1 board)
  from "1.prems"(1) have g: "isGrid board" by (simp add: okGrid_def)
  then have len: "length board = 9" by (simp add: isGrid_iff)
  then have "\<forall>(i, j)\<in>set allCells. i < length board" by (auto simp: allCells_set)
  then obtain r where r: "firstEmpty board allCells = Inr r"
    using firstEmpty_no_error[of allCells board] by (cases "firstEmpty board allCells") auto
  show ?case
  proof (cases r)
    case None
    with r show ?thesis by simp
  next
    case (Some p)
    obtain i j where p: "p = (i, j)" by (cases p)
    with r Some have fe: "firstEmpty board allCells = Inr (Some (i, j))" by simp
    from firstEmpty_range[OF fe] have i: "i < 9" and j: "j < 9" by simp_all
    from firstEmpty_Some[OF fe] have z: "rd board i j = Inr (Some 0)" by simp
    from "1.prems"(3) have gc: "isGrid c" by (simp add: okGrid_def)
    from rd_grid_ex[OF gc i j] obtain k where k: "rd c i j = Inr (Some k)" by blast
    with full_cells[OF "1.prems"(4) i j] have "1 \<le> k" by (cases k) auto
    from "1.IH"[OF r Some p[symmetric] "1.prems" i j z k this] fe show ?thesis by simp
  qed
next
  case (2 board i j num)
  note ok = \<open>okGrid board\<close> and fr = \<open>frame board c\<close> and okc = \<open>okGrid c\<close> and fc = \<open>full c\<close>
  note i = \<open>i < 9\<close> and j = \<open>j < 9\<close> and z = \<open>rd board i j = Inr (Some 0)\<close>
  note k = \<open>rd c i j = Inr (Some k)\<close> and nk = \<open>num \<le> k\<close>
  from ok have g: "isGrid board" by (simp add: okGrid_def)
  then have len: "length board = 9" by (simp add: isGrid_iff)
  from okc have gc: "isGrid c" and cfc: "conflictFree c" by (simp_all add: okGrid_def)
  from rd_grid_ex[OF gc i j] k have k9: "k \<le> 9" by auto
  from full_cells[OF fc i j] k have k1: "1 \<le> k" by (cases k) auto
  from nk k9 have le: "num \<le> 9" by simp
  have kv: "isValid board i j k = Inr True"
    by (rule completion_valid[OF g fr cfc i j z k k1])
  obtain valid where v: "isValid board i j num = Inr valid"
    using isValid_result[OF len i] by blast
  show ?case
  proof (cases valid)
    case False
    with v kv have "num \<noteq> k" by auto
    with nk have "num + 1 \<le> k" by simp
    from "2.IH"(3)[OF le v _ ok fr okc fc i j z k this] False le v show ?thesis by simp
  next
    case True
    define board1 where "board1 = put board i j (Some num)"
    have w1: "wr board i j (Some num) = Inr board1" using len i by (simp add: wr_def board1_def)
    have len1: "length board1 = 9" using len by (simp add: board1_def)
    from solve_returns(1)[OF len1] obtain solved board2 where
      s: "solveBoard board1 = Inr (solved, board2)" by auto
    show ?thesis
    proof (cases solved)
      case True
      with le v \<open>valid\<close> w1 s show ?thesis by simp
    next
      case False
      have "num \<noteq> k"
      proof
        assume e: "num = k"
        have "okGrid board1"
          unfolding board1_def using inv_place[OF ok i j le] v \<open>valid\<close> by simp
        moreover have "frame board1 c"
          unfolding board1_def e by (rule frame_place[OF g fr i j k])
        ultimately obtain b' where "solveBoard board1 = Inr (True, b')"
          using "2.IH"(1)[OF le v \<open>valid\<close> w1 _ _ okc fc] by blast
        with s False show False by simp
      qed
      with nk have nk': "num + 1 \<le> k" by simp
      from s False have b2: "board2 = board1" using solve_restore[of board1 board2] by simp
      define board3 where "board3 = put board2 i j (Some 0)"
      have w2: "wr board2 i j (Some 0) = Inr board3"
        using len1 b2 i by (simp add: wr_def board3_def)
      have b3: "board3 = board"
        unfolding board3_def b2 board1_def using z by (simp add: put_put rd_put_same)
      from "2.IH"(2)[OF le v \<open>valid\<close> w1 s refl _ w2] False b3 ok fr okc fc i j z k nk'
      obtain b' where "tryNums board3 i j (num + 1) = Inr (True, b')" by auto
      with le v \<open>valid\<close> w1 s False w2 show ?thesis by simp
    qed
  qed
qed

lemma box_origin_cases:
  assumes "i < (9::nat)"
  shows "i - i mod 3 \<in> {0, 3, 6}"
proof -
  have "i div 3 < 3" using assms by (simp add: less_mult_imp_div_less)
  then have "i div 3 = 0 \<or> i div 3 = 1 \<or> i div 3 = 2" by linarith
  then show ?thesis unfolding box_origin by auto
qed

lemma units_cover:
  assumes "i < 9" and "j < 9" and "i' < 9" and "j' < 9" and "sameUnit (i, j) (i', j')"
  shows "\<exists>u\<in>set units. (i, j) \<in> set u \<and> (i', j') \<in> set u"
proof -
  from assms(5) consider "i' = i" | "j' = j" | "i' div 3 = i div 3 \<and> j' div 3 = j div 3"
    unfolding sameUnit_def fst_conv snd_conv by metis
  then show ?thesis
  proof cases
    case 1
    have "rowCells i \<in> set units" using assms(1) by (simp add: units_def)
    moreover have "(i, j) \<in> set (rowCells i)" "(i', j') \<in> set (rowCells i)"
      using 1 assms(2,4) by (simp_all add: rowCells_set)
    ultimately show ?thesis by blast
  next
    case 2
    have "colCells j \<in> set units" using assms(2) by (simp add: units_def)
    moreover have "(i, j) \<in> set (colCells j)" "(i', j') \<in> set (colCells j)"
      using 2 assms(1,3) by (simp_all add: colCells_set)
    ultimately show ?thesis by blast
  next
    case 3
    let ?r = "i - i mod 3" and ?c = "j - j mod 3"
    from box_origin_cases[OF assms(1)] box_origin_cases[OF assms(2)]
    have "boxCells ?r ?c \<in> set units" unfolding units_def by auto
    moreover from box_member[of i i] box_member[of j j]
    have "(i, j) \<in> set (boxCells ?r ?c)" by (auto simp: boxCells_set)
    moreover from 3 box_member[of i' i] box_member[of j' j]
    have "(i', j') \<in> set (boxCells ?r ?c)" by (auto simp: boxCells_set)
    ultimately show ?thesis by blast
  qed
qed

lemma filter_two:
  assumes "distinct xs" and "p \<in> set xs" and "q \<in> set xs" and "p \<noteq> q" and "P p" and "P q"
  shows "2 \<le> length (filter P xs)"
proof -
  have "{p, q} \<subseteq> set (filter P xs)" using assms by simp
  then have "card {p, q} \<le> card (set (filter P xs))" by (intro card_mono) simp_all
  also have "\<dots> = length (filter P xs)"
    using assms(1) distinct_card[of "filter P xs"] by (simp only: distinct_filter)
  finally show ?thesis using assms(4) by simp
qed

lemma solution_conflictFree:
  assumes "isSolution c"
  shows "conflictFree c"
  unfolding conflictFree_def
proof (intro allI impI notI)
  fix i j i' j' d
  assume b: "i < 9" "j < 9" "i' < 9" "j' < 9" and d1: "1 \<le> (d::nat)"
    and ne: "(i, j) \<noteq> (i', j')" and su: "sameUnit (i, j) (i', j')"
    and p: "rd c i j = Inr (Some d)" and q: "rd c i' j' = Inr (Some d)"
  from assms have g: "isGrid c" by (simp add: isSolution_def)
  from rd_grid_ex[OF g b(1,2)] p have d9: "d \<le> 9" by auto
  from units_cover[OF b su] obtain u where u: "u \<in> set units"
    and m: "(i, j) \<in> set u" "(i', j') \<in> set u" by blast
  from filter_two[OF unit_facts(1)[OF u] m ne, of "\<lambda>(r, s). rd c r s = Inr (Some d)"] p q
  have "2 \<le> occurrences c u d" by (simp add: occurrences_def)
  moreover from assms u d1 d9 have "occurrences c u d = 1"
    by (simp add: isSolution_def list_all_iff)
  ultimately show False by simp
qed

lemma firstEmpty_none:
  "\<forall>(i, j)\<in>set ps. i < length board \<and> rd board i j \<noteq> Inr (Some 0) \<Longrightarrow>
   firstEmpty board ps = Inr None"
  by (induction board ps rule: firstEmpty.induct) (auto simp: rd_def)

lemma solution_full:
  assumes "isSolution c"
  shows "full c"
proof -
  from assms have "length c = 9" by (simp add: isSolution_def isGrid_def)
  moreover from assms have "\<forall>(i, j)\<in>set allCells. rd c i j \<noteq> Inr (Some 0)"
    by (simp add: isSolution_def list_all_iff)
  ultimately have "\<forall>(i, j)\<in>set allCells. i < length c \<and> rd c i j \<noteq> Inr (Some 0)"
    by (auto simp: allCells_set)
  then show ?thesis unfolding full_def by (rule firstEmpty_none)
qed

lemma solve_finds_completion:
  assumes "okGrid board" and "isSolution c" and "frame board c"
  shows "\<exists>board'. solveBoard board = Inr (True, board') \<and> isSolution board'"
proof -
  from assms(2) have "okGrid c"
    by (simp add: okGrid_def solution_conflictFree isSolution_def)
  from solve_complete(1)[OF assms(1,3) this solution_full[OF assms(2)]]
  obtain board' where s: "solveBoard board = Inr (True, board')" by blast
  from solve_inv(1)[OF assms(1) s] have "okGrid board'" "full board'" by simp_all
  then have "isSolution board'" by (rule inv_full_solution)
  with s show ?thesis by blast
qed

lemma seeded_search_succeeds:
  assumes "fillDiagonal emptyBoard draws = Some (Inr (board1, rest))"
    and "isSolution c" and "frame board1 c"
  shows "\<exists>board2. solveBoard board1 = Inr (True, board2) \<and> isSolution board2"
proof -
  from fillDiagonal_seeding[OF seeding_emptyBoard assms(1)] have "okGrid board1"
    by (simp add: seeding_inv)
  from solve_finds_completion[OF this assms(2,3)] show ?thesis .
qed

lemma solution_sol0: "isSolution sol0"
  by code_simp

lemma frame_seed0: "frame seed0 sol0"
  by (rule solve_frame(1)[OF solve_seed0])

lemma generated_count:
  assumes "generateNewGame d draws = Some (Inr g)"
  shows "\<exists>board1 draws1 draws2 n.
           n = (if d = JStr ''Easy'' then 30 else if d = JStr ''Hard'' then 50 else 40) \<and>
           fillDiagonal emptyBoard draws = Some (Inr (board1, draws1)) \<and>
           solveBoard board1 = Inr (True, solution g) \<and>
           removeDigits (solution g) n draws1 = Some (Inr (initial g, draws2)) \<and>
           zeros (solution g) = 0 \<and> zeros (initial g) = n"
proof -
  from generated_parts[OF assms] obtain board1 draws1 draws2 where
    f: "fillDiagonal emptyBoard draws = Some (Inr (board1, draws1))"
    and s: "solveBoard board1 = Inr (True, solution g)"
    and i: "okGrid (solution g)" and fu: "full (solution g)"
    and r: "removeDigits (solution g) (attemptsFor d) draws1 = Some (Inr (initial g, draws2))"
    by blast
  from i have gr: "isGrid (solution g)" by (simp add: okGrid_def)
  from full_zeros[OF gr fu] have z: "zeros (solution g) = 0" .
  from removeDigits_grid[OF gr r] z have "zeros (initial g) = attemptsFor d" by simp
  with f s r z show ?thesis by (auto simp: attemptsFor_value)
qed

lemma rd_put_here: "i < length board \<Longrightarrow> rd (put board i j v) i j = Inr v"
  by (auto simp: rd_def put_def putRow_def nth_append)

lemma solveWrites_cells:
  "solveWrites board b r c w \<Longrightarrow>
     rd board r c = Inr (Some 0) \<and>
     (w = Some 0 \<and> (\<exists>num. 1 \<le> num \<and> num \<le> 9 \<and> rd b r c = Inr (Some num)) \<or>
      (\<exists>num. 1 \<le> num \<and> num \<le> 9 \<and> w = Some num) \<and> rd b r c = Inr (Some 0))"
  "tryWrites board i j num b r c w \<Longrightarrow> rd board i j = Inr (Some 0) \<Longrightarrow> 1 \<le> num \<Longrightarrow>
     rd board r c = Inr (Some 0) \<and>
     (w = Some 0 \<and> (\<exists>num. 1 \<le> num \<and> num \<le> 9 \<and> rd b r c = Inr (Some num)) \<or>
      (\<exists>num. 1 \<le> num \<and> num \<le> 9 \<and> w = Some num) \<and> rd b r c = Inr (Some 0))"
proof (induction rule: solveWrites_tryWrites.inducts)
  case (sw_loop board i j b r c w)
  from firstEmpty_Some[OF sw_loop.hyps(1)] sw_loop.IH show ?case by simp
next
  case (tw_skip num board i j b r c w)
  then show ?case by simp
next
  case (tw_place num board i j board1)
  then show ?case by auto
next
  case (tw_call num board i j board1 b r c w)
  from tw_call.hyps(3) have b1: "board1 = put board i j (Some num)" and len: "i < length board"
    by (simp_all add: wr_Inr)
  from frame_put[OF tw_call.prems(1), of "Some num"] b1 have fr: "frame board board1" by simp
  from tw_call.IH have z: "rd board1 r c = Inr (Some 0)" by simp
  have "rd board r c = Inr (Some 0)"
  proof -
    from rd_in_range[OF tw_call.prems(1)] have jl: "j < length (board ! i)" by simp
    from z b1 rd_put[OF len jl, of "Some num" r c] tw_call.prems(2)
    show ?thesis by (auto split: if_splits)
  qed
  with tw_call.IH show ?case by simp
next
  case (tw_undo num board i j board1 board2 board3)
  from tw_undo.hyps(3) have b1: "board1 = put board i j (Some num)" and len: "i < length board"
    by (simp_all add: wr_Inr)
  from tw_undo.hyps(4) have "board2 = board1" by (rule solve_restore)
  with b1 rd_put_here[OF len] have "rd board2 i j = Inr (Some num)" by simp
  with tw_undo.prems tw_undo.hyps(1) show ?case by auto
next
  case (tw_next num board i j board1 board2 board3 b r c w)
  from tw_next.hyps(4) have "board2 = board1" by (rule solve_restore)
  with tw_next.hyps(3,5) have "board3 = put board i j (Some 0)" by (simp add: wr_Inr put_put)
  with tw_next.prems have "board3 = board" by (simp add: rd_put_same)
  with tw_next.IH tw_next.prems show ?case by simp
qed

lemma undo_deadEnd:
  "solveWrites deadEnd deadEndPlaced 0 0 (Some 0)"
proof -
  have fe: "firstEmpty deadEnd allCells = Inr (Some (0, 0))" by code_simp
  have v: "isValid deadEnd 0 0 1 = Inr True" by code_simp
  have w: "wr deadEnd 0 0 (Some 1) = Inr deadEndPlaced" by code_simp
  have s: "solveBoard deadEndPlaced = Inr (False, deadEndPlaced)" by code_simp
  have u: "wr deadEndPlaced 0 0 (Some 0) = Inr deadEnd" by code_simp
  have "tryWrites deadEnd 0 0 1 deadEndPlaced 0 0 (Some 0)"
    by (rule tw_undo[OF _ v w s u]) simp
  with fe show ?thesis by (rule sw_loop)
qed

lemma place_seed0: "solveWrites seed0 seed0 0 3 (Some 1)"
proof -
  have fe: "firstEmpty seed0 allCells = Inr (Some (0, 3))" by code_simp
  have v: "isValid seed0 0 3 1 = Inr True" by code_simp
  have w: "wr seed0 0 3 (Some 1) = Inr firstPlaced" by code_simp
  have "tryWrites seed0 0 3 1 seed0 0 3 (Some 1)" by (rule tw_place[OF _ v w]) simp
  with fe show ?thesis by (rule sw_loop)
qed

lemma rd_deadEndPlaced: "rd deadEndPlaced 0 0 = Inr (Some 1)"
  by code_simp


section \<open>The claims\<close>


text \<open>
  C1. Whatever the difficulty and whatever \<^verbatim>\<open>Math.random\<close> returns: when
  \<^verbatim>\<open>generateNewGame\<close> returns a game, its solution grid is a 9 by 9 grid of digits
  without a \<open>0\<close> in which every row, every column and every box holds each of the
  digits \<open>1\<close> to \<open>9\<close> exactly once. (A call whose search failed does not return:
  \<^verbatim>\<open>removeDigits\<close> would need at least 30 filled cells and finds 27.)
\<close>

theorem generated_solution_is_sudoku:
  "generateNewGame d draws = Some (Inr g) \<Longrightarrow> isSolution (solution g)"
  using generated_parts[of d draws g] inv_full_solution[of "solution g"] by blast

theorem generated_solution_is_sudoku_witness:
  "generateNewGame (JStr ''Hard'') draws0 =
     Some (Inr \<lparr>initial = puzzle50, solution = sol0\<rparr>) \<and> isSolution sol0"
proof -
  have e: "generateNewGame (JStr ''Hard'') draws0 =
      Some (Inr \<lparr>initial = puzzle50, solution = sol0\<rparr>)"
    by (simp add: gen_eval)
  from generated_solution_is_sudoku[OF e] e show ?thesis by simp
qed


text \<open>
  C2. The puzzle grid of a returned game is a 9 by 9 grid with exactly 30 cells holding
  \<open>0\<close> for \<^verbatim>\<open>'Easy'\<close>, 50 for \<^verbatim>\<open>'Hard'\<close> and 40 for every other argument, and each
  of its cells that does not hold \<open>0\<close> holds what the solution grid holds at the same
  place.
\<close>

theorem generated_puzzle_count:
  assumes "generateNewGame d draws = Some (Inr g)"
  shows "isGrid (initial g) \<and>
         zeros (initial g) =
           (if d = JStr ''Easy'' then 30 else if d = JStr ''Hard'' then 50 else 40) \<and>
         (\<forall>i j. rd (initial g) i j \<noteq> Inr (Some 0) \<longrightarrow>
                rd (initial g) i j = rd (solution g) i j)"
proof -
  from generated_parts[OF assms] obtain draws1 draws2 where
    iv: "okGrid (solution g)" and f: "full (solution g)"
    and r: "removeDigits (solution g) (attemptsFor d) draws1 = Some (Inr (initial g, draws2))"
    by blast
  from iv have gs: "isGrid (solution g)" by (simp add: okGrid_def)
  from removeDigits_grid[OF gs r] have gi: "isGrid (initial g)"
    and z: "zeros (initial g) = zeros (solution g) + attemptsFor d"
    and c: "cleared (solution g) (initial g)" by simp_all
  from z full_zeros[OF gs f] have "zeros (initial g) = attemptsFor d" by simp
  then have "zeros (initial g) =
      (if d = JStr ''Easy'' then 30 else if d = JStr ''Hard'' then 50 else 40)"
    by (simp add: attemptsFor_value)
  moreover from c have "\<forall>i j. rd (initial g) i j \<noteq> Inr (Some 0) \<longrightarrow>
      rd (initial g) i j = rd (solution g) i j"
    unfolding cleared_def by blast
  ultimately show ?thesis using gi by blast
qed

theorem generated_puzzle_count_witness:
  "generateNewGame (JStr ''Easy'') draws0 =
     Some (Inr \<lparr>initial = puzzle30, solution = sol0\<rparr>) \<and>
   zeros puzzle30 = 30 \<and> rd puzzle30 0 1 \<noteq> Inr (Some 0) \<and> rd puzzle30 0 1 = rd sol0 0 1"
proof -
  have e: "generateNewGame (JStr ''Easy'') draws0 =
      Some (Inr \<lparr>initial = puzzle30, solution = sol0\<rparr>)"
    by (simp add: gen_eval)
  have n: "rd puzzle30 0 1 \<noteq> Inr (Some 0)" by code_simp
  from generated_puzzle_count[OF e] e n show ?thesis by simp
qed


text \<open>
  C3. The claim: for every grid, cell and digit, \<^verbatim>\<open>isValid(grid, row, col, num)\<close> is true
  exactly when placing \<open>num\<close> at \<open>(row, col)\<close> introduces no duplicate in the row, the
  column or the box, the value stored at \<open>(row, col)\<close> being ignored. The three loops
  scan the cell \<open>(row, col)\<close> like any other, so the value stored there is not ignored:
  on the board with a \<open>5\<close> at \<open>(0, 0)\<close> and nothing else, \<^verbatim>\<open>isValid(grid, 0, 0, 5)\<close>
  is false although no other cell holds a \<open>5\<close>.
\<close>

theorem isValid_ignores_own_cell_counterexample:
  "\<not> (isValid grid5 0 0 5 = Inr True \<longleftrightarrow> noDuplicate grid5 0 0 5)"
  by code_simp

text \<open>
  C3, as the code has it: on a 9 by 9 grid, \<^verbatim>\<open>isValid(grid, row, col, num)\<close> returns true
  exactly when the cell \<open>(row, col)\<close> does not hold \<open>num\<close> already and no other cell of
  its row, column and box holds \<open>num\<close>. With a \<open>5\<close> at \<open>(0, 0)\<close> the calls for the
  cells \<open>(0, 3)\<close>, \<open>(3, 0)\<close> and \<open>(1, 1)\<close> with \<open>5\<close> are false.
\<close>

theorem isValid_iff_absent:
  assumes "isGrid board" and "row < 9" and "col < 9"
  shows "isValid board row col num =
           Inr (rd board row col \<noteq> Inr (Some num) \<and> noDuplicate board row col num) \<and>
         (rd board 0 0 = Inr (Some 5) \<longrightarrow>
            isValid board 0 3 5 = Inr False \<and> isValid board 3 0 5 = Inr False \<and>
            isValid board 1 1 5 = Inr False)"
proof -
  from assms(1) have len: "length board = 9" by (simp add: isGrid_iff)
  show ?thesis
    using isValid_own_cell[OF len assms(2,3)] isValid_examples[OF len] by simp
qed

theorem isValid_iff_absent_witness:
  "isGrid grid5 \<and> isValid grid5 4 4 5 = Inr True \<and> isValid grid5 0 3 5 = Inr False \<and>
   isValid grid5 3 0 5 = Inr False \<and> isValid grid5 1 1 5 = Inr False \<and>
   isValid grid5 0 0 5 = Inr False"
proof -
  have g: "isGrid grid5" by code_simp
  have a: "rd grid5 4 4 \<noteq> Inr (Some 5) \<and> noDuplicate grid5 4 4 5" by code_simp
  have b: "rd grid5 0 0 = Inr (Some 5)" by code_simp
  from isValid_iff_absent[OF g, of 4 4 5] isValid_iff_absent[OF g, of 0 0 5] a b g
  show ?thesis by simp
qed


text \<open>
  C4. Every board the working grid passes through during generation (after the reset,
  after each assignment of \<^verbatim>\<open>fillBox\<close>, after each placement and each undo of
  \<^verbatim>\<open>solveBoard\<close>) is a 9 by 9 grid of digits in which no digit from \<open>1\<close> to \<open>9\<close> occurs
  twice in a row, a column or a box.
\<close>

theorem generation_states_consistent:
  "generationVisits draws s \<Longrightarrow> isGrid s \<and> consistent s"
  using generationVisits_inv[of draws s] inv_consistent[of s] by (simp add: okGrid_def)

theorem generation_states_consistent_witness:
  "generationVisits draws0 firstPlaced \<and> isGrid firstPlaced \<and> consistent firstPlaced"
proof -
  from fill_draws0 visit_firstPlaced have r: "generationVisits draws0 firstPlaced"
    by (rule gv_solve)
  from generation_states_consistent[OF r] r show ?thesis by simp
qed


text \<open>
  C5. The claim: the two grids returned by one call share no storage with each other,
  and neither is an alias of the generator's own state. The second half fails:
  \<^verbatim>\<open>generateNewGame\<close> returns \<^verbatim>\<open>this.board\<close> and \<^verbatim>\<open>this.solution\<close> themselves, so a write
  through the returned puzzle is a write to the generator's board.
\<close>

theorem returned_grids_alias_generator_counterexample:
  "generateNewGameH JUndefined draws0 state0 = Some (Inr (heap1, this1, refs1)) \<and>
   setCell heap1 (initialAt refs1) 0 1 (Some 7) = Inr heap1w \<and>
   load heap1w (boardRef this1) \<noteq> load heap1 (boardRef this1)"
proof -
  have "load heap1w (boardRef this1) \<noteq> load heap1 (boardRef this1)" by code_simp
  with run1 write1 show ?thesis by simp
qed

text \<open>
  C5, as the code has it: a cell write through the returned puzzle leaves the returned
  solution as it is, and a cell write through the returned solution leaves the puzzle
  as it is; the returned puzzle is the generator's \<^verbatim>\<open>board\<close> array and the returned
  solution its \<^verbatim>\<open>solution\<close> array; the call allocates both anew and writes to no array
  that existed before it, and the grids it returns are those of the value-level
  \<open>generateNewGame\<close>, whatever the heap held before.
\<close>

theorem returned_grids_storage:
  assumes "generateNewGameH d draws (h, this) = Some (Inr (h', this', r))"
  shows "(\<forall>i j v h''. setCell h' (initialAt r) i j v = Inr h'' \<longrightarrow>
            load h'' (solutionAt r) = load h' (solutionAt r)) \<and>
         (\<forall>i j v h''. setCell h' (solutionAt r) i j v = Inr h'' \<longrightarrow>
            load h'' (initialAt r) = load h' (initialAt r)) \<and>
         initialAt r = boardRef this' \<and> solutionRef this' = Some (solutionAt r) \<and>
         take (length h) h' = h \<and>
         (\<exists>g. generateNewGame d draws = Some (Inr g) \<and>
              load h' (initialAt r) = Some (initial g) \<and>
              load h' (solutionAt r) = Some (solution g))"
proof -
  from generateNewGameH_layout[OF assms] obtain g rsp rss where
    gen: "generateNewGame d draws = Some (Inr g)"
    and lp: "layout h' (initialAt r) rsp (initial g)"
    and ls: "layout h' (solutionAt r) rss (solution g)"
    and sep: "initialAt r \<notin> set rss" "solutionAt r \<notin> set rsp" "set rsp \<inter> set rss = {}"
    and own: "initialAt r = boardRef this'" "solutionRef this' = Some (solutionAt r)"
    and old: "take (length h) h' = h"
    by blast
  from sep(3) have sep': "set rss \<inter> set rsp = {}" by blast
  have "load h'' (solutionAt r) = load h' (solutionAt r)"
    if "setCell h' (initialAt r) i j v = Inr h''" for i j v h''
    using setCell_separate[OF lp ls sep(2,3) that] .
  moreover have "load h'' (initialAt r) = load h' (initialAt r)"
    if "setCell h' (solutionAt r) i j v = Inr h''" for i j v h''
    using setCell_separate[OF ls lp sep(1) sep' that] .
  moreover note own old
  moreover have "\<exists>g. generateNewGame d draws = Some (Inr g) \<and>
      load h' (initialAt r) = Some (initial g) \<and> load h' (solutionAt r) = Some (solution g)"
    using gen load_layout[OF lp] load_layout[OF ls] by blast
  ultimately show ?thesis by blast
qed

theorem returned_grids_storage_witness:
  "generateNewGameH JUndefined draws0 state0 = Some (Inr (heap1, this1, refs1)) \<and>
   setCell heap1 (initialAt refs1) 0 1 (Some 7) = Inr heap1w \<and>
   load heap1w (solutionAt refs1) = load heap1 (solutionAt refs1) \<and>
   load heap1 (solutionAt refs1) = Some sol0 \<and>
   take (length (fst state0)) heap1 = fst state0"
proof -
  have s: "state0 = (fst state0, snd state0)" by simp
  from run1 have r: "generateNewGameH JUndefined draws0 (fst state0, snd state0) =
      Some (Inr (heap1, this1, refs1))" by simp
  have l: "load heap1 (solutionAt refs1) = Some sol0" by code_simp
  from returned_grids_storage[OF r] run1 write1 l show ?thesis by blast
qed


text \<open>
  C6. The number of cells to clear is 30 for \<^verbatim>\<open>'Easy'\<close>, 40 for \<^verbatim>\<open>'Medium'\<close> and 50
  for \<^verbatim>\<open>'Hard'\<close>; any other argument, the omitted one (\<^verbatim>\<open>undefined\<close>) included, gives
  40, and the call then does exactly what it does for \<^verbatim>\<open>'Medium'\<close>. The count is what
  \<^verbatim>\<open>generateNewGame\<close> hands to \<^verbatim>\<open>removeDigits\<close> together with the solved board, and the
  returned puzzle has exactly that many cleared cells.
\<close>

theorem difficulty_removal_count:
  "attemptsFor (JStr ''Easy'') = 30 \<and> attemptsFor (JStr ''Medium'') = 40 \<and>
   attemptsFor (JStr ''Hard'') = 50 \<and>
   (d \<notin> {JStr ''Easy'', JStr ''Medium'', JStr ''Hard''} \<longrightarrow>
      attemptsFor d = 40 \<and>
      generateNewGame d draws = generateNewGame (JStr ''Medium'') draws) \<and>
   (generateNewGame d draws = Some (Inr g) \<longrightarrow>
      (\<exists>board1 draws1 draws2 n.
         n = (if d = JStr ''Easy'' then 30 else if d = JStr ''Hard'' then 50 else 40) \<and>
         fillDiagonal emptyBoard draws = Some (Inr (board1, draws1)) \<and>
         solveBoard board1 = Inr (True, solution g) \<and>
         removeDigits (solution g) n draws1 = Some (Inr (initial g, draws2)) \<and>
         zeros (solution g) = 0 \<and> zeros (initial g) = n))"
proof -
  have "attemptsFor d = attemptsFor (JStr ''Medium'')"
    if "d \<notin> {JStr ''Easy'', JStr ''Medium'', JStr ''Hard''}"
    using that by (simp add: attemptsFor_value)
  then have a: "d \<notin> {JStr ''Easy'', JStr ''Medium'', JStr ''Hard''} \<longrightarrow>
      attemptsFor d = 40 \<and>
      generateNewGame d draws = generateNewGame (JStr ''Medium'') draws"
    using generateNewGame_attempts[of d "JStr ''Medium''" draws]
    by (auto simp: attemptsFor_value)
  have b: "attemptsFor (JStr ''Easy'') = 30 \<and> attemptsFor (JStr ''Medium'') = 40 \<and>
   attemptsFor (JStr ''Hard'') = 50" by (simp add: attemptsFor_value)
  from a b generated_count[of d draws g] show ?thesis by blast
qed

theorem difficulty_removal_count_witness:
  "JUndefined \<notin> {JStr ''Easy'', JStr ''Medium'', JStr ''Hard''} \<and>
   attemptsFor JUndefined = 40 \<and>
   generateNewGame JUndefined draws0 = generateNewGame (JStr ''Medium'') draws0 \<and>
   generateNewGame (JStr ''easy'') draws0 = generateNewGame (JStr ''Medium'') draws0 \<and>
   generateNewGame (JNum 30) draws0 = generateNewGame (JStr ''Medium'') draws0 \<and>
   generateNewGame (JStr ''Easy'') draws0 = Some (Inr \<lparr>initial = puzzle30, solution = sol0\<rparr>) \<and>
   removeDigits sol0 30 removal0 = Some (Inr (puzzle30, rest30)) \<and> zeros puzzle30 = 30 \<and>
   generateNewGame (JStr ''Hard'') draws0 = Some (Inr \<lparr>initial = puzzle50, solution = sol0\<rparr>) \<and>
   removeDigits sol0 50 removal0 = Some (Inr (puzzle50, rest50)) \<and> zeros puzzle50 = 50 \<and>
   generateNewGame JUndefined draws0 = Some (Inr \<lparr>initial = puzzle40, solution = sol0\<rparr>) \<and>
   removeDigits sol0 40 removal0 = Some (Inr (puzzle40, rest40)) \<and> zeros puzzle40 = 40"
  using difficulty_removal_count[of JUndefined draws0 "\<lparr>initial = puzzle40, solution = sol0\<rparr>"]
    difficulty_removal_count[of "JStr ''easy''" draws0]
    difficulty_removal_count[of "JNum 30" draws0]
    difficulty_removal_count[of "JStr ''Easy''" draws0 "\<lparr>initial = puzzle30, solution = sol0\<rparr>"]
    difficulty_removal_count[of "JStr ''Hard''" draws0 "\<lparr>initial = puzzle50, solution = sol0\<rparr>"]
    gen_eval[of JUndefined] gen_eval[of "JStr ''Easy''"] gen_eval[of "JStr ''Hard''"]
    fill_draws0 remove30 remove40 remove50
  by (simp del: solveBoard.simps)


text \<open>
  C8. \<^verbatim>\<open>solveBoard\<close> terminates on every board, and the nesting of its recursive calls
  is bounded by the number of cells that hold \<open>0\<close>: with that many calls allowed below
  the first one, the bounded solver returns what \<open>solveBoard\<close> returns. On a 9 by 9 grid
  there are at most 81 such cells, and the call returns its boolean and does not throw.
  (With the first call counted as well, the bound is the number of empty cells plus
  one.) The bound is attained: the board \<open>seed0\<close> with its 54 empty cells needs 54 calls
  below the first, the empty board 81.
\<close>

theorem solveBoard_depth_bound:
  "solveBoard_tryNums_dom (Inl board) \<and>
   solveBoardD (zeros board) board = Some (solveBoard board) \<and>
   (isGrid board \<longrightarrow> zeros board \<le> 81 \<and> (\<exists>ok board'. solveBoard board = Inr (ok, board')))"
proof -
  have "\<exists>ok board'. solveBoard board = Inr (ok, board')" if "isGrid board"
  proof -
    from that have "length board = 9" by (simp add: isGrid_iff)
    from solve_returns(1)[OF this] show ?thesis by auto
  qed
  then show ?thesis
    using solve_total(1)[of board] depth_enough(1)[of board "zeros board"] zeros_le_81[of board]
    by simp
qed

theorem solveBoard_depth_bound_witness:
  "isGrid seed0 \<and> zeros seed0 = 54 \<and> solveBoardD 54 seed0 = Some (Inr (True, sol0)) \<and>
   solveBoardD 53 seed0 = None \<and>
   isGrid emptyBoard \<and> zeros emptyBoard = 81 \<and>
   solveBoardD 81 emptyBoard = Some (solveBoard emptyBoard) \<and>
   solveBoardD 80 emptyBoard = None"
proof -
  have g: "isGrid seed0" by code_simp
  have z: "zeros seed0 = 54" by code_simp
  have n: "solveBoardD 53 seed0 = None" by code_simp
  have e: "solveBoardD 80 emptyBoard = None" by code_simp
  from solveBoard_depth_bound[of seed0] solveBoard_depth_bound[of emptyBoard]
    g z n e solve_seed0 isGrid_emptyBoard zeros_emptyBoard
  show ?thesis by simp
qed


text \<open>
  C9. Whenever \<^verbatim>\<open>solveBoard\<close> returns false, the board it leaves behind is the board
  it was called with: every digit placed during the failed search has been taken back.
\<close>

theorem solveBoard_false_restores:
  "solveBoard board = Inr (False, board') \<Longrightarrow> board' = board"
  by (rule solve_restore)

theorem solveBoard_false_restores_witness:
  "solveBoard deadEnd = Inr (False, deadEnd) \<and> snd (projr (solveBoard deadEnd)) = deadEnd"
  using solve_deadEnd solveBoard_false_restores[OF solve_deadEnd] by simp


text \<open>
  C10. The claim opens with: \<^verbatim>\<open>solveBoard\<close> writes only to cells that contain \<open>0\<close> at
  the moment of writing. The undo \<^verbatim>\<open>board[i][j] = 0\<close> of line 76 writes to the cell
  that holds the digit just placed: on \<open>deadEnd\<close> the first undo goes to the cell
  \<open>(0, 0)\<close> while it holds \<open>1\<close>.
\<close>

theorem solveBoard_undo_writes_filled_cell_counterexample:
  "solveWrites deadEnd deadEndPlaced 0 0 (Some 0) \<and> rd deadEndPlaced 0 0 = Inr (Some 1)"
  using undo_deadEnd rd_deadEndPlaced by simp

text \<open>
  C10, as the code has it. Every assignment of \<^verbatim>\<open>solveBoard\<close>, in the call itself and in
  the calls below it, goes to a cell that held \<open>0\<close> when \<^verbatim>\<open>solveBoard\<close> was called; it
  is either the placement of a digit \<open>1\<close> to \<open>9\<close> into a cell that holds \<open>0\<close> at that
  moment, or the undo, which writes \<open>0\<close> into a cell that holds a digit \<open>1\<close> to \<open>9\<close> at
  that moment. A cell that does not hold \<open>0\<close> when \<^verbatim>\<open>solveBoard\<close> is called reads the same
  when the call returns, with true or with false, and on every board the search passes
  through. The seeded cells of the diagonal boxes are therefore part of every completion.
\<close>

theorem solveBoard_keeps_filled_cells:
  "(solveWrites board b r c w \<longrightarrow>
      rd board r c = Inr (Some 0) \<and>
      (w = Some 0 \<and> (\<exists>num. 1 \<le> num \<and> num \<le> 9 \<and> rd b r c = Inr (Some num)) \<or>
       (\<exists>num. 1 \<le> num \<and> num \<le> 9 \<and> w = Some num) \<and> rd b r c = Inr (Some 0))) \<and>
   ((solveBoard board = Inr (ok, board') \<or> solveVisits board board') \<and>
    rd board i j = Inr v \<and> v \<noteq> Some 0 \<longrightarrow> rd board' i j = Inr v)"
  using solveWrites_cells(1)[of board b r c w]
    solve_frame(1)[of board ok board'] solveVisits_frame(1)[of board board']
  unfolding frame_def by blast

theorem solveBoard_keeps_filled_cells_witness:
  "solveBoard seed0 = Inr (True, sol0) \<and> solveVisits seed0 firstPlaced \<and>
   rd seed0 4 5 = Inr (Some 6) \<and> Some 6 \<noteq> Some (0::nat) \<and>
   rd sol0 4 5 = Inr (Some 6) \<and> rd firstPlaced 4 5 = Inr (Some 6) \<and>
   solveWrites seed0 seed0 0 3 (Some 1) \<and> rd seed0 0 3 = Inr (Some 0) \<and>
   solveWrites deadEnd deadEndPlaced 0 0 (Some 0) \<and> rd deadEnd 0 0 = Inr (Some 0) \<and>
   rd deadEndPlaced 0 0 = Inr (Some 1)"
proof -
  have r: "rd seed0 4 5 = Inr (Some 6)" by code_simp
  have n: "Some 6 \<noteq> Some (0::nat)" by simp
  from solveBoard_keeps_filled_cells[of seed0 seed0 0 3 "Some 1" True sol0 4 5 "Some 6"]
    solveBoard_keeps_filled_cells[of seed0 seed0 0 3 "Some 1" True firstPlaced 4 5 "Some 6"]
    solveBoard_keeps_filled_cells[of deadEnd deadEndPlaced 0 0 "Some 0" False deadEnd 0 0 "Some 0"]
    solve_seed0 visit_firstPlaced r n place_seed0 undo_deadEnd rd_deadEndPlaced
  show ?thesis by (simp del: solveBoard.simps)
qed

end
